theory Spec2Isabelle
  imports
    Main
    "HOL-Library.Char_ord"
    "HOL-Library.List_Lexorder"
    "HOL-Library.Product_Lexorder"
    "HOL-Library.Multiset"
begin

section \<open>The world the engine reads\<close>

text \<open>
  The deduplication engine of \<^verbatim>\<open>photos_dedupe\<close> (\<^verbatim>\<open>dedupe.py\<close>, \<^verbatim>\<open>hashing.py\<close>,
  \<^verbatim>\<open>utils.py\<close>) reads files and calls into PIL, imagehash, hashlib, os.path and pathlib.
  Those are not code of the repository: what they answer is collected in one record, fixed
  for a run.

  \<^item> \<open>calculate_sha256\<close>: the hex digest that \<^verbatim>\<open>utils.calculate_sha256\<close> reads off the file,
    \<open>None\<close> when opening or reading raises.
  \<^item> \<open>compute_phash\<close>: \<^verbatim>\<open>str(imagehash.phash(img))\<close> after \<^verbatim>\<open>Image.open\<close> and the colour
    conversion, \<open>None\<close> when any of it raises.
  \<^item> \<open>image_open_size\<close>: \<^verbatim>\<open>(img.width, img.height)\<close> of \<^verbatim>\<open>Image.open\<close>, \<open>None\<close> when it raises.
  \<^item> \<open>get_file_size\<close>: \<^verbatim>\<open>os.path.getsize\<close>; the scanned files exist throughout a run, so
    it is total.
  \<^item> \<open>suffix_lower\<close>: \<^verbatim>\<open>Path(p).suffix.lower()\<close>.
  \<^item> \<open>IMAGEHASH_AVAILABLE\<close>: the module flag set by the optional import.
  \<^item> \<open>hex_to_hash\<close>: the flattened bit array of \<^verbatim>\<open>imagehash.hex_to_hash\<close>, \<open>None\<close> when it
    raises.

  Paths and digests are Python strings; a \<open>string\<close> here is the UTF-8 byte sequence, whose
  lexicographic order is the order of the code points that Python compares.
\<close>

type_synonym path = string

record world =
  calculate_sha256 :: "path \<Rightarrow> string option"
  compute_phash :: "path \<Rightarrow> string option"
  image_open_size :: "path \<Rightarrow> (nat \<times> nat) option"
  get_file_size :: "path \<Rightarrow> nat"
  suffix_lower :: "path \<Rightarrow> string"
  IMAGEHASH_AVAILABLE :: bool
  hex_to_hash :: "string \<Rightarrow> bool list option"

datatype error = IOError | IndexError | TypeError

section \<open>utils.py\<close>

definition get_image_dimensions :: "world \<Rightarrow> path \<Rightarrow> nat option \<times> nat option" where
  "get_image_dimensions w file_path =
     (case image_open_size w file_path of
        Some (width, height) \<Rightarrow> (Some width, Some height)
      | None \<Rightarrow> (None, None))"

definition supported_extensions :: "string list" where
  "supported_extensions =
     [''.jpg'', ''.jpeg'', ''.png'', ''.webp'', ''.gif'',
      ''.heic'', ''.heif'', ''.tif'', ''.tiff'']"

definition is_supported_image :: "world \<Rightarrow> path \<Rightarrow> bool" where
  "is_supported_image w file_path \<longleftrightarrow> suffix_lower w file_path \<in> set supported_extensions"

section \<open>hashing.py\<close>

record HashCalculator =
  sha256_cache :: "path \<rightharpoonup> string"
  phash_cache :: "path \<rightharpoonup> string"

definition new_HashCalculator :: HashCalculator where
  "new_HashCalculator = \<lparr>sha256_cache = Map.empty, phash_cache = Map.empty\<rparr>"

text \<open>
  \<^verbatim>\<open>get_sha256\<close> answers from the cache when asked to and the path is there; otherwise it
  computes, stores and returns the digest, and re-raises what \<^verbatim>\<open>calculate_sha256\<close> raised
  (storing nothing).
\<close>

definition get_sha256 ::
  "world \<Rightarrow> HashCalculator \<Rightarrow> path \<Rightarrow> bool \<Rightarrow> (error + string) \<times> HashCalculator" where
  "get_sha256 w hc file_path use_cache =
     (case (if use_cache then sha256_cache hc file_path else None) of
        Some cached \<Rightarrow> (Inr cached, hc)
      | None \<Rightarrow>
          (case calculate_sha256 w file_path of
             Some hash_value \<Rightarrow>
               (Inr hash_value,
                hc\<lparr>sha256_cache := (sha256_cache hc)(file_path \<mapsto> hash_value)\<rparr>)
           | None \<Rightarrow> (Inl IOError, hc)))"

text \<open>
  \<^verbatim>\<open>get_phash\<close> never raises: it returns \<open>None\<close> when the library is missing, when the
  extension is not an image's, and when opening or hashing the image raises.
\<close>

definition get_phash ::
  "world \<Rightarrow> HashCalculator \<Rightarrow> path \<Rightarrow> bool \<Rightarrow> string option \<times> HashCalculator" where
  "get_phash w hc file_path use_cache =
     (if \<not> IMAGEHASH_AVAILABLE w then (None, hc)
      else if \<not> is_supported_image w file_path then (None, hc)
      else
        (case (if use_cache then phash_cache hc file_path else None) of
           Some cached \<Rightarrow> (Some cached, hc)
         | None \<Rightarrow>
             (case compute_phash w file_path of
                Some hash_str \<Rightarrow>
                  (Some hash_str,
                   hc\<lparr>phash_cache := (phash_cache hc)(file_path \<mapsto> hash_str)\<rparr>)
              | None \<Rightarrow> (None, hc))))"

text \<open>
  \<^verbatim>\<open>ImageHash.__sub__\<close> of the imagehash library: a \<^verbatim>\<open>TypeError\<close> when the two bit
  arrays have different sizes, else the number of positions where they differ.
\<close>

definition differing_bits :: "bool list \<Rightarrow> bool list \<Rightarrow> nat" where
  "differing_bits a b = length (filter (\<lambda>(x, y). x \<noteq> y) (zip a b))"

definition hash_sub :: "bool list \<Rightarrow> bool list \<Rightarrow> error + nat" where
  "hash_sub a b = (if length a \<noteq> length b then Inl TypeError else Inr (differing_bits a b))"

text \<open>
  \<^verbatim>\<open>hamming_distance\<close> catches every exception of the decoding and of the subtraction and
  answers 999 then; without the library it answers 0.
\<close>

definition hamming_distance :: "world \<Rightarrow> string \<Rightarrow> string \<Rightarrow> nat" where
  "hamming_distance w hash1 hash2 =
     (if \<not> IMAGEHASH_AVAILABLE w then 0
      else
        (case hex_to_hash w hash1 of
           None \<Rightarrow> 999
         | Some h1 \<Rightarrow>
             (case hex_to_hash w hash2 of
                None \<Rightarrow> 999
              | Some h2 \<Rightarrow>
                  (case hash_sub h1 h2 of
                     Inl e \<Rightarrow> 999
                   | Inr d \<Rightarrow> d))))"

section \<open>dedupe.py: winner selection\<close>

text \<open>Python's \<^verbatim>\<open>str\<close> of a non-negative integer, as the f-strings print it.\<close>

definition digit_char :: "nat \<Rightarrow> char" where
  "digit_char d = ''0123456789'' ! d"

function str_nat :: "nat \<Rightarrow> string" where
  "str_nat n = (if n < 10 then [digit_char n] else str_nat (n div 10) @ [digit_char (n mod 10)])"
  by pat_completeness auto
termination
  by (relation "measure id") auto

declare str_nat.simps [simp del]

definition str_opt :: "nat option \<Rightarrow> string" where
  "str_opt v = (case v of None \<Rightarrow> ''None'' | Some n \<Rightarrow> str_nat n)"

text \<open>One entry of \<^verbatim>\<open>file_metadata\<close> in \<^verbatim>\<open>select_winner\<close>.\<close>

record file_meta =
  m_path :: path
  m_width :: "nat option"
  m_height :: "nat option"
  m_resolution :: nat
  m_size :: nat

definition collect_meta :: "world \<Rightarrow> path \<Rightarrow> file_meta" where
  "collect_meta w file_path =
     (let (width, height) = get_image_dimensions w file_path;
          size = get_file_size w file_path;
          resolution =
            (case (width, height) of
               (Some wd, Some ht) \<Rightarrow> (if wd \<noteq> 0 \<and> ht \<noteq> 0 then wd * ht else 0)
             | _ \<Rightarrow> 0)
      in \<lparr>m_path = file_path, m_width = width, m_height = height,
          m_resolution = resolution, m_size = size\<rparr>)"

text \<open>The sort key \<^verbatim>\<open>(-x['resolution'], -x['size'], x['path'])\<close>; tuples compare
  lexicographically.\<close>

definition sort_key_meta :: "file_meta \<Rightarrow> int \<times> int \<times> path" where
  "sort_key_meta x = (- int (m_resolution x), - int (m_size x), m_path x)"

definition select_winner :: "world \<Rightarrow> path list \<Rightarrow> error + (path \<times> string)" where
  "select_winner w files =
     (case files of
        [only] \<Rightarrow> Inr (only, ''only file in group'')
      | _ \<Rightarrow>
          (let sorted_files = sort files;
               file_metadata = sort_key sort_key_meta (map (collect_meta w) sorted_files)
           in case file_metadata of
                [] \<Rightarrow> Inl IndexError
              | [winner] \<Rightarrow> Inl IndexError
              | winner # second # _ \<Rightarrow>
                  (let reason =
                     (if m_resolution winner > m_resolution second then
                        ''highest resolution ('' @ str_opt (m_width winner) @ ''x'' @
                          str_opt (m_height winner) @ '')''
                      else if m_size winner > m_size second then
                        ''largest file size ('' @ str_nat (m_size winner) @ '' bytes)''
                      else ''alphabetically first path'')
                   in Inr (m_path winner, reason))))"

section \<open>dedupe.py: exact duplicates\<close>

text \<open>
  \<^verbatim>\<open>hash_to_files\<close> is a \<^verbatim>\<open>defaultdict(list)\<close>: its keys keep the order of their first
  insertion, and \<^verbatim>\<open>append\<close> adds the path at the end of the key's list.
\<close>

fun append_to_bucket ::
  "string \<Rightarrow> path \<Rightarrow> (string \<times> path list) list \<Rightarrow> (string \<times> path list) list" where
  "append_to_bucket h p [] = [(h, [p])]"
| "append_to_bucket h p ((k, ps) # rest) =
     (if k = h then (k, ps @ [p]) # rest else (k, ps) # append_to_bucket h p rest)"

text \<open>The loop over \<^verbatim>\<open>files\<close>: a file whose digest raises is logged and skipped.\<close>

fun hash_files ::
  "world \<Rightarrow> path list \<Rightarrow> (string \<times> path list) list \<Rightarrow> HashCalculator \<Rightarrow>
     (string \<times> path list) list \<times> HashCalculator" where
  "hash_files w [] hash_to_files hc = (hash_to_files, hc)"
| "hash_files w (file_path # rest) hash_to_files hc =
     (case get_sha256 w hc file_path True of
        (Inr file_hash, hc') \<Rightarrow>
          hash_files w rest (append_to_bucket file_hash file_path hash_to_files) hc'
      | (Inl e, hc') \<Rightarrow> hash_files w rest hash_to_files hc')"

definition find_exact_duplicates ::
  "world \<Rightarrow> HashCalculator \<Rightarrow> path list \<Rightarrow> path list list \<times> HashCalculator" where
  "find_exact_duplicates w hc files =
     (let (hash_to_files, hc') = hash_files w files [] hc;
          duplicate_groups = filter (\<lambda>grp. length grp > 1) (map snd hash_to_files)
      in (duplicate_groups, hc'))"

section \<open>dedupe.py: perceptual duplicates\<close>

text \<open>
  \<^verbatim>\<open>file_hashes\<close> is a dict from path to fingerprint; storing under a key that is there
  keeps the key's place. \<^verbatim>\<open>files_list\<close> is its key list and \<^verbatim>\<open>file_hashes[f]\<close> the value
  beside the key, so the loops below walk the items.
\<close>

fun dict_set :: "path \<Rightarrow> string \<Rightarrow> (path \<times> string) list \<Rightarrow> (path \<times> string) list" where
  "dict_set k v [] = [(k, v)]"
| "dict_set k v ((k', v') # rest) =
     (if k' = k then (k, v) # rest else (k', v') # dict_set k v rest)"

text \<open>\<^verbatim>\<open>if phash:\<close> drops \<open>None\<close> and the empty string.\<close>

fun phash_files ::
  "world \<Rightarrow> path list \<Rightarrow> (path \<times> string) list \<Rightarrow> HashCalculator \<Rightarrow>
     (path \<times> string) list \<times> HashCalculator" where
  "phash_files w [] file_hashes hc = (file_hashes, hc)"
| "phash_files w (file_path # rest) file_hashes hc =
     (case get_phash w hc file_path True of
        (Some phash, hc') \<Rightarrow>
          (if phash \<noteq> [] then phash_files w rest (dict_set file_path phash file_hashes) hc'
           else phash_files w rest file_hashes hc')
      | (None, hc') \<Rightarrow> phash_files w rest file_hashes hc')"

text \<open>The inner loop over \<^verbatim>\<open>files_list[i+1:]\<close>, carrying \<^verbatim>\<open>group\<close> and \<^verbatim>\<open>min_distance\<close>.\<close>

fun scan_rest ::
  "world \<Rightarrow> int \<Rightarrow> string \<Rightarrow> path set \<Rightarrow> (path \<times> string) list \<Rightarrow>
     path list \<times> nat option \<Rightarrow> path list \<times> nat option" where
  "scan_rest w threshold hash1 processed [] acc = acc"
| "scan_rest w threshold hash1 processed ((file2, hash2) # rest) (grp, min_distance) =
     (if file2 \<in> processed then
        scan_rest w threshold hash1 processed rest (grp, min_distance)
      else
        (let distance = hamming_distance w hash1 hash2 in
         if int distance \<le> threshold then
           scan_rest w threshold hash1 processed rest
             (grp @ [file2],
              (case min_distance of
                 None \<Rightarrow> Some distance
               | Some m \<Rightarrow> if distance < m then Some distance else Some m))
         else scan_rest w threshold hash1 processed rest (grp, min_distance)))"

text \<open>The outer loop; \<^verbatim>\<open>min_distance or 0\<close> is 0 for \<open>None\<close> and for 0.\<close>

fun cluster ::
  "world \<Rightarrow> int \<Rightarrow> (path \<times> string) list \<Rightarrow> path set \<Rightarrow> (path list \<times> nat) list" where
  "cluster w threshold [] processed = []"
| "cluster w threshold ((file1, hash1) # rest) processed =
     (if file1 \<in> processed then cluster w threshold rest processed
      else
        (let (grp, min_distance) =
               scan_rest w threshold hash1 processed rest ([file1], None)
         in if length grp > 1 then
              (grp, (case min_distance of None \<Rightarrow> 0 | Some d \<Rightarrow> d)) #
                cluster w threshold rest (processed \<union> set grp)
            else cluster w threshold rest processed))"

definition find_perceptual_duplicates ::
  "world \<Rightarrow> int \<Rightarrow> HashCalculator \<Rightarrow> path list \<Rightarrow> (path list \<times> nat) list \<times> HashCalculator" where
  "find_perceptual_duplicates w threshold hc files =
     (let image_files = filter (is_supported_image w) files;
          (file_hashes, hc') = phash_files w image_files [] hc
      in (cluster w threshold file_hashes {}, hc'))"

section \<open>dedupe.py: the engine\<close>

record metadata =
  md_path :: path
  md_sha256 :: string
  md_width :: "nat option"
  md_height :: "nat option"
  md_size :: nat

record DuplicateGroup =
  group_id :: nat
  detection_type :: string
  winner :: path
  duplicates :: "path list"
  winner_metadata :: metadata
  duplicate_metadata :: "metadata list"
  reason :: string
  phash_distance :: "nat option"

record Deduplicator =
  mode :: string
  phash_threshold :: int
  hash_calc :: HashCalculator
  duplicate_groups :: "DuplicateGroup list"

definition new_Deduplicator :: "string \<Rightarrow> int \<Rightarrow> Deduplicator" where
  "new_Deduplicator m t =
     \<lparr>mode = m, phash_threshold = t, hash_calc = new_HashCalculator, duplicate_groups = []\<rparr>"

text \<open>\<^verbatim>\<open>_get_file_metadata\<close>: the digest is asked for without a handler, so its exception
  leaves the function.\<close>

definition get_file_metadata ::
  "world \<Rightarrow> HashCalculator \<Rightarrow> path \<Rightarrow> (error + metadata) \<times> HashCalculator" where
  "get_file_metadata w hc file_path =
     (let (width, height) = get_image_dimensions w file_path;
          sz = get_file_size w file_path
      in case get_sha256 w hc file_path True of
           (Inr sha256, hc') \<Rightarrow>
             (Inr \<lparr>md_path = file_path, md_sha256 = sha256, md_width = width,
                   md_height = height, md_size = sz\<rparr>, hc')
         | (Inl e, hc') \<Rightarrow> (Inl e, hc'))"

text \<open>The list comprehension over \<^verbatim>\<open>group.duplicates\<close>, left at the first exception.\<close>

fun get_file_metadata_list ::
  "world \<Rightarrow> HashCalculator \<Rightarrow> path list \<Rightarrow> (error + metadata list) \<times> HashCalculator" where
  "get_file_metadata_list w hc [] = (Inr [], hc)"
| "get_file_metadata_list w hc (f # rest) =
     (case get_file_metadata w hc f of
        (Inl e, hc') \<Rightarrow> (Inl e, hc')
      | (Inr m, hc') \<Rightarrow>
          (case get_file_metadata_list w hc' rest of
             (Inl e, hc'') \<Rightarrow> (Inl e, hc'')
           | (Inr ms, hc'') \<Rightarrow> (Inr (m # ms), hc'')))"

text \<open>
  The body of the two \<^verbatim>\<open>for\<close> loops of \<^verbatim>\<open>create_duplicate_groups\<close> is the same but for the
  detection type and the distance (left \<open>None\<close> in the exact pass). A group is appended to
  \<^verbatim>\<open>self.duplicate_groups\<close> once it is complete; an exception leaves the loop with the groups
  appended so far. The result is the next free group id.
\<close>

fun build_groups ::
  "world \<Rightarrow> string \<Rightarrow> (path list \<times> nat option) list \<Rightarrow> nat \<Rightarrow> Deduplicator \<Rightarrow>
     (error + nat) \<times> Deduplicator" where
  "build_groups w dtype [] gid d = (Inr gid, d)"
| "build_groups w dtype ((group_files, distance) # rest) gid d =
     (case select_winner w group_files of
        Inl e \<Rightarrow> (Inl e, d)
      | Inr (win, why) \<Rightarrow>
          (let dups = filter (\<lambda>f. f \<noteq> win) group_files in
           case get_file_metadata w (hash_calc d) win of
             (Inl e, hc1) \<Rightarrow> (Inl e, d\<lparr>hash_calc := hc1\<rparr>)
           | (Inr wmeta, hc1) \<Rightarrow>
               (case get_file_metadata_list w hc1 dups of
                  (Inl e, hc2) \<Rightarrow> (Inl e, d\<lparr>hash_calc := hc2\<rparr>)
                | (Inr dmeta, hc2) \<Rightarrow>
                    build_groups w dtype rest (gid + 1)
                      (d\<lparr>hash_calc := hc2,
                         duplicate_groups := duplicate_groups d @
                           [\<lparr>group_id = gid, detection_type = dtype, winner = win,
                             duplicates = dups, winner_metadata = wmeta,
                             duplicate_metadata = dmeta, reason = why,
                             phash_distance = distance\<rparr>]\<rparr>))))"

definition processed_files_of :: "DuplicateGroup list \<Rightarrow> path set" where
  "processed_files_of gs = (\<Union>g \<in> set gs. insert (winner g) (set (duplicates g)))"

text \<open>
  \<^verbatim>\<open>create_duplicate_groups\<close> empties \<^verbatim>\<open>self.duplicate_groups\<close> and runs two blocks, each
  guarded by the mode. The first buckets all files by digest; the second clusters the files
  that no group of the first one holds. Each block is given here as a function from the
  engine to the engine, returning the next free group id or the exception that left it.
\<close>

definition exact_pass ::
  "world \<Rightarrow> Deduplicator \<Rightarrow> path list \<Rightarrow> (error + nat) \<times> Deduplicator" where
  "exact_pass w d files =
     (if mode d \<in> set [''exact'', ''exact+perceptual''] then
        (let (exact_groups, hc) = find_exact_duplicates w (hash_calc d) files
         in build_groups w ''exact'' (map (\<lambda>g. (g, None)) exact_groups) 0
              (d\<lparr>hash_calc := hc\<rparr>))
      else (Inr 0, d))"

definition perceptual_pass ::
  "world \<Rightarrow> nat \<Rightarrow> Deduplicator \<Rightarrow> path list \<Rightarrow> (error + nat) \<times> Deduplicator" where
  "perceptual_pass w gid d files =
     (if mode d \<in> set [''perceptual'', ''exact+perceptual''] then
        (let processed_files = processed_files_of (duplicate_groups d);
             remaining_files = filter (\<lambda>f. f \<notin> processed_files) files;
             (perceptual_groups, hc) =
               find_perceptual_duplicates w (phash_threshold d) (hash_calc d) remaining_files
         in build_groups w ''perceptual''
              (map (\<lambda>(g, dist). (g, Some dist)) perceptual_groups) gid
              (d\<lparr>hash_calc := hc\<rparr>))
      else (Inr gid, d))"

definition create_duplicate_groups ::
  "world \<Rightarrow> Deduplicator \<Rightarrow> path list \<Rightarrow> (error + DuplicateGroup list) \<times> Deduplicator" where
  "create_duplicate_groups w d files =
     (case exact_pass w (d\<lparr>duplicate_groups := []\<rparr>) files of
        (Inl e, d1) \<Rightarrow> (Inl e, d1)
      | (Inr gid, d1) \<Rightarrow>
          (case perceptual_pass w gid d1 files of
             (Inl e, d2) \<Rightarrow> (Inl e, d2)
           | (Inr _, d2) \<Rightarrow> (Inr (duplicate_groups d2), d2)))"

definition get_all_winners :: "Deduplicator \<Rightarrow> path list" where
  "get_all_winners d = map winner (duplicate_groups d)"

definition get_all_duplicates :: "Deduplicator \<Rightarrow> path list" where
  "get_all_duplicates d = concat (map duplicates (duplicate_groups d))"

definition get_unique_files :: "Deduplicator \<Rightarrow> path list \<Rightarrow> path list" where
  "get_unique_files d all_files =
     (let all_dupes = set (get_all_winners d @ get_all_duplicates d)
      in filter (\<lambda>f. f \<notin> all_dupes) all_files)"

section \<open>The specification's words\<close>

text \<open>
  Resolution is width times height, and 0 when the dimensions are unavailable. A candidate
  ranks before another when it has the higher resolution, then the larger byte size, then
  the lexicographically smaller path.
\<close>

definition resolution :: "world \<Rightarrow> path \<Rightarrow> nat" where
  "resolution w p = (case image_open_size w p of Some (wd, ht) \<Rightarrow> wd * ht | None \<Rightarrow> 0)"

definition ranks_before :: "world \<Rightarrow> path \<Rightarrow> path \<Rightarrow> bool" where
  "ranks_before w a b \<longleftrightarrow>
     resolution w a > resolution w b \<or>
     (resolution w a = resolution w b \<and>
        (get_file_size w a > get_file_size w b \<or>
         (get_file_size w a = get_file_size w b \<and> a \<le> b)))"

text \<open>The reason names the first criterion that tells the winner from the runner-up.\<close>

definition reason_for :: "world \<Rightarrow> path \<Rightarrow> path \<Rightarrow> string" where
  "reason_for w a b =
     (if resolution w a > resolution w b then
        ''highest resolution ('' @
          (case image_open_size w a of
             Some (wd, ht) \<Rightarrow> str_nat wd @ ''x'' @ str_nat ht
           | None \<Rightarrow> ''NonexNone'') @ '')''
      else if get_file_size w a > get_file_size w b then
        ''largest file size ('' @ str_nat (get_file_size w a) @ '' bytes)''
      else ''alphabetically first path'')"

text \<open>
  The specification's clustering, in its words: the files are walked in order; a file that
  is assigned already is skipped; any other file seeds a cluster and is joined by every
  later file that is not assigned and is within the threshold of the seed; a cluster of
  two or more files is reported, a seed alone is not.
\<close>

fun greedy_clusters ::
  "(path \<Rightarrow> path \<Rightarrow> nat) \<Rightarrow> int \<Rightarrow> path list \<Rightarrow> path set \<Rightarrow> path list list" where
  "greedy_clusters dist thr [] assigned = []"
| "greedy_clusters dist thr (seed # later) assigned =
     (if seed \<in> assigned then greedy_clusters dist thr later assigned
      else
        (let grp = seed # filter (\<lambda>f. f \<notin> assigned \<and> int (dist seed f) \<le> thr) later;
             others = greedy_clusters dist thr later (assigned \<union> set grp)
         in if 2 \<le> length grp then grp # others else others))"

text \<open>A file takes part in the clustering when it has a fingerprint that is not empty.\<close>

definition has_fingerprint :: "(path \<Rightarrow> string option) \<Rightarrow> path \<Rightarrow> bool" where
  "has_fingerprint pv p = (case pv p of Some h \<Rightarrow> h \<noteq> [] | None \<Rightarrow> False)"

text \<open>The paths of a list in the order of their first occurrence, each one once.\<close>

definition first_occurrences :: "path list \<Rightarrow> path list" where
  "first_occurrences ps = fold (\<lambda>p seen. if p \<in> set seen then seen else seen @ [p]) ps []"

section \<open>What a run computes, apart from the caches\<close>

text \<open>
  The functions of this section are not code of the repository: they say what the stateful
  functions above return without threading the caches, and are proved equal to them below.

  \<open>sha_view\<close> and \<open>phash_view\<close> are what \<^verbatim>\<open>get_sha256\<close> and \<^verbatim>\<open>get_phash\<close> answer for a path
  when called with the cache in use: the cached value when there is one, else what the
  world gives (\<open>None\<close> for a digest that raises). Two caches have the \<open>same_views\<close> when
  they answer alike for every path.
\<close>

definition sha_view :: "world \<Rightarrow> HashCalculator \<Rightarrow> path \<Rightarrow> string option" where
  "sha_view w hc p =
     (case sha256_cache hc p of Some h \<Rightarrow> Some h | None \<Rightarrow> calculate_sha256 w p)"

definition phash_view :: "world \<Rightarrow> HashCalculator \<Rightarrow> path \<Rightarrow> string option" where
  "phash_view w hc p =
     (if IMAGEHASH_AVAILABLE w then
        (if is_supported_image w p then
           (case phash_cache hc p of Some h \<Rightarrow> Some h | None \<Rightarrow> compute_phash w p)
         else None)
      else None)"

definition same_views :: "world \<Rightarrow> HashCalculator \<Rightarrow> HashCalculator \<Rightarrow> bool" where
  "same_views w hc hc' \<longleftrightarrow> sha_view w hc' = sha_view w hc \<and> phash_view w hc' = phash_view w hc"

text \<open>
  \<open>bucket_files\<close> is the loop of \<^verbatim>\<open>find_exact_duplicates\<close> over a digest function, and
  \<open>exact_groups\<close> its result; \<open>fingerprint_files\<close> and \<open>perceptual_groups\<close> are the same
  for \<^verbatim>\<open>find_perceptual_duplicates\<close>.
\<close>

fun bucket_files ::
  "(path \<Rightarrow> string option) \<Rightarrow> path list \<Rightarrow> (string \<times> path list) list \<Rightarrow>
     (string \<times> path list) list" where
  "bucket_files sv [] tbl = tbl"
| "bucket_files sv (p # ps) tbl =
     (case sv p of
        Some h \<Rightarrow> bucket_files sv ps (append_to_bucket h p tbl)
      | None \<Rightarrow> bucket_files sv ps tbl)"

definition exact_groups :: "(path \<Rightarrow> string option) \<Rightarrow> path list \<Rightarrow> path list list" where
  "exact_groups sv files =
     filter (\<lambda>grp. length grp > 1) (map snd (bucket_files sv files []))"

fun fingerprint_files ::
  "(path \<Rightarrow> string option) \<Rightarrow> path list \<Rightarrow> (path \<times> string) list \<Rightarrow> (path \<times> string) list" where
  "fingerprint_files pv [] items = items"
| "fingerprint_files pv (p # ps) items =
     (case pv p of
        Some h \<Rightarrow>
          (if h \<noteq> [] then fingerprint_files pv ps (dict_set p h items)
           else fingerprint_files pv ps items)
      | None \<Rightarrow> fingerprint_files pv ps items)"

definition perceptual_groups ::
  "world \<Rightarrow> (path \<Rightarrow> string option) \<Rightarrow> int \<Rightarrow> path list \<Rightarrow> (path list \<times> nat) list" where
  "perceptual_groups w pv threshold files =
     cluster w threshold (fingerprint_files pv (filter (is_supported_image w) files) []) {}"

text \<open>
  \<open>file_metadata_of\<close>, \<open>metadata_list_of\<close>, \<open>make_group\<close> and \<open>plan_groups\<close> follow
  \<^verbatim>\<open>_get_file_metadata\<close>, the list comprehension over it, the body of the group loop and the
  loop itself; \<open>plan_groups\<close> returns the groups it completed beside the outcome.
\<close>

definition file_metadata_of :: "world \<Rightarrow> (path \<Rightarrow> string option) \<Rightarrow> path \<Rightarrow> error + metadata" where
  "file_metadata_of w sv p =
     (case sv p of
        Some h \<Rightarrow>
          Inr \<lparr>md_path = p, md_sha256 = h, md_width = fst (get_image_dimensions w p),
               md_height = snd (get_image_dimensions w p), md_size = get_file_size w p\<rparr>
      | None \<Rightarrow> Inl IOError)"

fun metadata_list_of ::
  "world \<Rightarrow> (path \<Rightarrow> string option) \<Rightarrow> path list \<Rightarrow> error + metadata list" where
  "metadata_list_of w sv [] = Inr []"
| "metadata_list_of w sv (p # ps) =
     (case file_metadata_of w sv p of
        Inl e \<Rightarrow> Inl e
      | Inr m \<Rightarrow>
          (case metadata_list_of w sv ps of Inl e \<Rightarrow> Inl e | Inr ms \<Rightarrow> Inr (m # ms)))"

definition make_group ::
  "world \<Rightarrow> (path \<Rightarrow> string option) \<Rightarrow> string \<Rightarrow> nat \<Rightarrow> path list \<times> nat option \<Rightarrow>
     error + DuplicateGroup" where
  "make_group w sv dtype gid entry =
     (case select_winner w (fst entry) of
        Inl e \<Rightarrow> Inl e
      | Inr (win, why) \<Rightarrow>
          (case file_metadata_of w sv win of
             Inl e \<Rightarrow> Inl e
           | Inr wmeta \<Rightarrow>
               (case metadata_list_of w sv (filter (\<lambda>f. f \<noteq> win) (fst entry)) of
                  Inl e \<Rightarrow> Inl e
                | Inr dmeta \<Rightarrow>
                    Inr \<lparr>group_id = gid, detection_type = dtype, winner = win,
                         duplicates = filter (\<lambda>f. f \<noteq> win) (fst entry),
                         winner_metadata = wmeta, duplicate_metadata = dmeta, reason = why,
                         phash_distance = snd entry\<rparr>)))"

fun plan_groups ::
  "world \<Rightarrow> (path \<Rightarrow> string option) \<Rightarrow> string \<Rightarrow> (path list \<times> nat option) list \<Rightarrow> nat \<Rightarrow>
     (error + nat) \<times> DuplicateGroup list" where
  "plan_groups w sv dtype [] gid = (Inr gid, [])"
| "plan_groups w sv dtype (entry # rest) gid =
     (case make_group w sv dtype gid entry of
        Inl e \<Rightarrow> (Inl e, [])
      | Inr g \<Rightarrow>
          (case plan_groups w sv dtype rest (gid + 1) of (r, gs) \<Rightarrow> (r, g # gs)))"

text \<open>
  The two blocks of \<^verbatim>\<open>create_duplicate_groups\<close> and the whole run, returning the outcome and
  the groups that \<^verbatim>\<open>self.duplicate_groups\<close> holds at the end.
\<close>

definition exact_plan ::
  "world \<Rightarrow> (path \<Rightarrow> string option) \<Rightarrow> string \<Rightarrow> path list \<Rightarrow>
     (error + nat) \<times> DuplicateGroup list" where
  "exact_plan w sv md files =
     (if md \<in> set [''exact'', ''exact+perceptual''] then
        plan_groups w sv ''exact'' (map (\<lambda>g. (g, None)) (exact_groups sv files)) 0
      else (Inr 0, []))"

definition perceptual_plan ::
  "world \<Rightarrow> (path \<Rightarrow> string option) \<Rightarrow> (path \<Rightarrow> string option) \<Rightarrow> string \<Rightarrow> int \<Rightarrow>
     nat \<Rightarrow> DuplicateGroup list \<Rightarrow> path list \<Rightarrow> (error + nat) \<times> DuplicateGroup list" where
  "perceptual_plan w sv pv md thr gid gs1 files =
     (if md \<in> set [''perceptual'', ''exact+perceptual''] then
        plan_groups w sv ''perceptual''
          (map (\<lambda>(g, dist). (g, Some dist))
             (perceptual_groups w pv thr (filter (\<lambda>f. f \<notin> processed_files_of gs1) files)))
          gid
      else (Inr gid, []))"

definition run_groups ::
  "world \<Rightarrow> (path \<Rightarrow> string option) \<Rightarrow> (path \<Rightarrow> string option) \<Rightarrow> string \<Rightarrow> int \<Rightarrow> path list \<Rightarrow>
     (error + DuplicateGroup list) \<times> DuplicateGroup list" where
  "run_groups w sv pv md thr files =
     (case exact_plan w sv md files of
        (Inl e, gs1) \<Rightarrow> (Inl e, gs1)
      | (Inr gid, gs1) \<Rightarrow>
          (case perceptual_plan w sv pv md thr gid gs1 files of
             (Inl e, gs2) \<Rightarrow> (Inl e, gs1 @ gs2)
           | (Inr _, gs2) \<Rightarrow> (Inr (gs1 @ gs2), gs1 @ gs2)))"

section \<open>The files of a group, and the invariants of the two passes\<close>

text \<open>
  The files of a group are its winner and its duplicates.
\<close>

definition group_files :: "DuplicateGroup \<Rightarrow> path set" where
  "group_files g = insert (winner g) (set (duplicates g))"

text \<open>
  The invariant of \<^verbatim>\<open>hash_to_files\<close>: every key is there once, and every path is filed under
  its own digest.
\<close>

definition tbl_ok :: "(path \<Rightarrow> string option) \<Rightarrow> (string \<times> path list) list \<Rightarrow> bool" where
  "tbl_ok sv tbl \<longleftrightarrow>
     distinct (map fst tbl) \<and> (\<forall>(k, ps) \<in> set tbl. \<forall>p \<in> set ps. sv p = Some k)"

text \<open>
  \<open>near\<close> keeps the items that the inner loop of the clustering adds to the group of a seed
  with fingerprint \<open>h1\<close>: those not processed and within the threshold. \<open>min_step\<close> is the
  update of \<^verbatim>\<open>min_distance\<close> by one distance.
\<close>

definition near ::
  "world \<Rightarrow> int \<Rightarrow> string \<Rightarrow> path set \<Rightarrow> (path \<times> string) list \<Rightarrow> (path \<times> string) list" where
  "near w thr h1 P rest =
     filter (\<lambda>(f2, h2). f2 \<notin> P \<and> int (hamming_distance w h1 h2) \<le> thr) rest"

definition min_step :: "nat \<Rightarrow> nat option \<Rightarrow> nat option" where
  "min_step d m = (case m of None \<Rightarrow> Some d | Some x \<Rightarrow> if d < x then Some d else Some x)"

text \<open>
  The Hamming distance between the fingerprints of two paths. It is only used for paths
  that have a fingerprint; the 999 for a path without one is the value that
  \<^verbatim>\<open>hamming_distance\<close> gives to what it cannot compare.
\<close>

definition fingerprint_distance ::
  "world \<Rightarrow> (path \<Rightarrow> string option) \<Rightarrow> path \<Rightarrow> path \<Rightarrow> nat" where
  "fingerprint_distance w pv a b =
     (case pv a of
        Some x \<Rightarrow> (case pv b of Some y \<Rightarrow> hamming_distance w x y | None \<Rightarrow> 999)
      | None \<Rightarrow> 999)"

text \<open>
  The invariant of \<^verbatim>\<open>file_hashes\<close>: every key is there once, beside its own fingerprint, which
  is not empty.
\<close>

definition items_ok :: "(path \<Rightarrow> string option) \<Rightarrow> (path \<times> string) list \<Rightarrow> bool" where
  "items_ok pv items \<longleftrightarrow>
     distinct (map fst items) \<and> (\<forall>(p, h) \<in> set items. pv p = Some h \<and> h \<noteq> [])"

section \<open>A world of tables, for worked examples\<close>

text \<open>
  Fingerprints are hexadecimal strings; each digit stands for four bits, most significant
  first, which is what imagehash decodes for the 16-digit strings that \<^verbatim>\<open>phash\<close> prints
  and for every other length whose bit count is a square.
\<close>

definition hex_val :: "char \<Rightarrow> nat option" where
  "hex_val c =
     (let n = (of_char c :: nat) in
      if 48 \<le> n \<and> n \<le> 57 then Some (n - 48)
      else if 97 \<le> n \<and> n \<le> 102 then Some (n - 87)
      else if 65 \<le> n \<and> n \<le> 70 then Some (n - 55)
      else None)"

definition nibble :: "nat \<Rightarrow> bool list" where
  "nibble v = [v div 8 mod 2 = 1, v div 4 mod 2 = 1, v div 2 mod 2 = 1, v mod 2 = 1]"

fun hex_bits :: "string \<Rightarrow> bool list option" where
  "hex_bits [] = Some []"
| "hex_bits (c # cs) =
     (case hex_val c of
        None \<Rightarrow> None
      | Some v \<Rightarrow> (case hex_bits cs of None \<Rightarrow> None | Some bs \<Rightarrow> Some (nibble v @ bs)))"

definition table_hex_to_hash :: "string \<Rightarrow> bool list option" where
  "table_hex_to_hash s = (if s = [] then None else hex_bits s)"

text \<open>The extension of a plain lower-case file name: the text from its last dot on.\<close>

definition table_suffix :: "path \<Rightarrow> string" where
  "table_suffix p =
     (let r = takeWhile (\<lambda>c. c \<noteq> CHR ''.'') (rev p)
      in if length r = length p then [] else CHR ''.'' # rev r)"

definition table_world ::
  "(path \<times> string) list \<Rightarrow> (path \<times> string) list \<Rightarrow> (path \<times> nat \<times> nat) list \<Rightarrow>
     (path \<times> nat) list \<Rightarrow> world" where
  "table_world shas phashes dims sizes =
     \<lparr>calculate_sha256 = map_of shas,
      compute_phash = map_of phashes,
      image_open_size = map_of dims,
      get_file_size = (\<lambda>p. case map_of sizes p of Some n \<Rightarrow> n | None \<Rightarrow> 0),
      suffix_lower = table_suffix,
      IMAGEHASH_AVAILABLE = True,
      hex_to_hash = table_hex_to_hash\<rparr>"

definition bits_0007 :: "bool list" where
  "bits_0007 =
     [False, False, False, False, False, False, False, False,
      False, False, False, False, False, True, True, True]"

definition bits_00f0 :: "bool list" where
  "bits_00f0 =
     [False, False, False, False, False, False, False, False,
      True, True, True, True, False, False, False, False]"

definition bare_world :: world where
  "bare_world = table_world [] [] [] []"

text \<open>The same world on a machine where \<^verbatim>\<open>import imagehash\<close> failed.\<close>

definition no_library_world :: world where
  "no_library_world = bare_world\<lparr>IMAGEHASH_AVAILABLE := False\<rparr>"

definition two_photos :: world where
  "two_photos =
     table_world [] [] [(''a.jpg'', 100, 100), (''b.jpg'', 200, 200)]
       [(''a.jpg'', 50000), (''b.jpg'', 10000)]"

section \<open>An album, for worked examples\<close>

text \<open>
  Five files: \<^verbatim>\<open>a.jpg\<close> and \<^verbatim>\<open>b.jpg\<close> have the same bytes, \<^verbatim>\<open>c.jpg\<close> and \<^verbatim>\<open>d.png\<close> are three
  bits apart, and \<^verbatim>\<open>e.mp4\<close> is a video that cannot be read.
\<close>

definition album :: world where
  "album =
     table_world
       [(''a.jpg'', ''s1''), (''b.jpg'', ''s1''), (''c.jpg'', ''s2''), (''d.png'', ''s3'')]
       [(''a.jpg'', ''ffff''), (''b.jpg'', ''ffff''), (''c.jpg'', ''0000''), (''d.png'', ''0007'')]
       [(''a.jpg'', 100, 100), (''b.jpg'', 200, 200), (''c.jpg'', 10, 10), (''d.png'', 10, 10)]
       [(''a.jpg'', 50000), (''b.jpg'', 10000), (''c.jpg'', 500), (''d.png'', 900), (''e.mp4'', 7)]"

definition album_files :: "path list" where
  "album_files = [''a.jpg'', ''b.jpg'', ''c.jpg'', ''d.png'', ''e.mp4'']"

text \<open>
  The engine that a run leaves behind.
\<close>

abbreviation after_run :: "world \<Rightarrow> Deduplicator \<Rightarrow> path list \<Rightarrow> Deduplicator" where
  "after_run w d files \<equiv> snd (create_duplicate_groups w d files)"

text \<open>
  A cache is consistent with the world when it holds nothing but hashes of the world's
  files: what the cache of a new engine holds, and what an engine has cached of files
  that did not change since.
\<close>

definition cache_consistent :: "world \<Rightarrow> HashCalculator \<Rightarrow> bool" where
  "cache_consistent w hc \<longleftrightarrow>
     (\<forall>p h. sha256_cache hc p = Some h \<longrightarrow> calculate_sha256 w p = Some h) \<and>
     (\<forall>p h. phash_cache hc p = Some h \<longrightarrow> compute_phash w p = Some h)"

text \<open>
  Engines for the worked examples: a new one in the combined mode, one with an unknown
  mode, and one in the combined mode that has hashed two of the album's files before.
  \<open>album_twice\<close> is the file list of a folder that was given twice.
\<close>

definition album_engine :: Deduplicator where
  "album_engine = new_Deduplicator ''exact+perceptual'' 6"


definition fuzzy_engine :: Deduplicator where
  "fuzzy_engine = new_Deduplicator ''fuzzy'' 6"

definition warm_engine :: Deduplicator where
  "warm_engine =
     \<lparr>mode = ''exact+perceptual'', phash_threshold = 6,
      hash_calc = \<lparr>sha256_cache = [''a.jpg'' \<mapsto> ''s1''], phash_cache = [''c.jpg'' \<mapsto> ''0000'']\<rparr>,
      duplicate_groups = []\<rparr>"

text \<open>The album when reading the bytes of \<^verbatim>\<open>d.png\<close> raises, while PIL decodes the image.\<close>

definition torn_album :: world where
  "torn_album =
     table_world
       [(''a.jpg'', ''s1''), (''b.jpg'', ''s1''), (''c.jpg'', ''s2'')]
       [(''a.jpg'', ''ffff''), (''b.jpg'', ''ffff''), (''c.jpg'', ''0000''), (''d.png'', ''0007'')]
       [(''a.jpg'', 100, 100), (''b.jpg'', 200, 200), (''c.jpg'', 10, 10), (''d.png'', 10, 10)]
       [(''a.jpg'', 50000), (''b.jpg'', 10000), (''c.jpg'', 500), (''d.png'', 900), (''e.mp4'', 7)]"

text \<open>Three images whose fingerprints are 3, 4 and 7 bits apart.\<close>

definition trio :: world where
  "trio =
     table_world []
       [(''a.jpg'', ''0000''), (''b.jpg'', ''0007''), (''c.jpg'', ''00f0'')] [] []"

section \<open>Facts about winner selection\<close>

lemmas table_eval =
  table_world_def table_hex_to_hash_def hex_val_def nibble_def table_suffix_def

lemma m_path_collect: "m_path (collect_meta w p) = p"
  by (auto simp: collect_meta_def get_image_dimensions_def split: option.splits)

lemma m_resolution_collect: "m_resolution (collect_meta w p) = resolution w p"
  by (auto simp: collect_meta_def get_image_dimensions_def resolution_def split: option.splits)

lemma m_size_collect: "m_size (collect_meta w p) = get_file_size w p"
  by (auto simp: collect_meta_def get_image_dimensions_def split: option.splits)

lemma key_le_iff:
  "sort_key_meta (collect_meta w a) \<le> sort_key_meta (collect_meta w b) \<longleftrightarrow> ranks_before w a b"
  by (auto simp: sort_key_meta_def less_eq_prod_def ranks_before_def
      m_resolution_collect m_size_collect m_path_collect)

lemma ranked_metadata:
  fixes w files
  defines "fm \<equiv> sort_key sort_key_meta (map (collect_meta w) (sort files))"
  shows "mset (map m_path fm) = mset files"
    and "fm = map (collect_meta w) (map m_path fm)"
    and "sorted_wrt (ranks_before w) (map m_path fm)"
proof -
  have set_fm: "set fm = collect_meta w ` set files"
    by (simp add: fm_def)
  have "mset fm = image_mset (collect_meta w) (mset files)"
    by (simp add: fm_def)
  then have "mset (map m_path fm) = image_mset m_path (image_mset (collect_meta w) (mset files))"
    by simp
  also have "\<dots> = mset files"
    by (simp add: image_mset.compositionality comp_def m_path_collect)
  finally show "mset (map m_path fm) = mset files" .
  have "\<forall>x \<in> set fm. collect_meta w (m_path x) = x"
    using set_fm by (auto simp: m_path_collect)
  then show fm_eq: "fm = map (collect_meta w) (map m_path fm)"
    by (simp add: map_idI)
  have "sorted (map sort_key_meta fm)"
    by (simp add: fm_def)
  then have "sorted (map (\<lambda>p. sort_key_meta (collect_meta w p)) (map m_path fm))"
    using fm_eq by (metis (no_types, lifting) map_map comp_def map_eq_conv)
  then show "sorted_wrt (ranks_before w) (map m_path fm)"
    by (simp add: sorted_map key_le_iff del: map_map)
qed

lemma select_winner_single: "select_winner w [f] = Inr (f, ''only file in group'')"
  by (simp add: select_winner_def)

lemma select_winner_many:
  assumes len: "2 \<le> length files"
  shows "\<exists>ranked. mset ranked = mset files \<and> sorted_wrt (ranks_before w) ranked \<and>
           select_winner w files = Inr (ranked ! 0, reason_for w (ranked ! 0) (ranked ! 1))"
proof -
  define fm where "fm = sort_key sort_key_meta (map (collect_meta w) (sort files))"
  define ranked where "ranked = map m_path fm"
  have perm: "mset ranked = mset files"
    and fm_eq: "fm = map (collect_meta w) ranked"
    and srt: "sorted_wrt (ranks_before w) ranked"
    unfolding ranked_def fm_def by (rule ranked_metadata)+
  have "length ranked = length files"
    using perm by (metis size_mset)
  with len obtain a b rest where ranked_eq: "ranked = a # b # rest"
    by (cases ranked; cases "tl ranked") auto
  from len obtain x y zs where fs: "files = x # y # zs"
    by (cases files; cases "tl files") auto
  have "select_winner w files =
      (case fm of
         [] \<Rightarrow> Inl IndexError
       | [m1] \<Rightarrow> Inl IndexError
       | m1 # m2 # _ \<Rightarrow>
           Inr (m_path m1,
                if m_resolution m1 > m_resolution m2 then
                  ''highest resolution ('' @ str_opt (m_width m1) @ ''x'' @
                    str_opt (m_height m1) @ '')''
                else if m_size m1 > m_size m2 then
                  ''largest file size ('' @ str_nat (m_size m1) @ '' bytes)''
                else ''alphabetically first path''))"
    unfolding select_winner_def fm_def fs by (simp only: list.case Let_def)
  also have "\<dots> = Inr (a, reason_for w a b)"
    by (subst fm_eq)
       (auto simp: ranked_eq collect_meta_def get_image_dimensions_def reason_for_def
          resolution_def str_opt_def split: option.splits)
  finally have "select_winner w files = Inr (a, reason_for w a b)" .
  with perm srt ranked_eq show ?thesis
    by (intro exI [of _ ranked]) simp
qed

lemma select_winner_empty: "select_winner w [] = Inl IndexError"
  by (simp add: select_winner_def)

lemma select_winner_member:
  assumes "select_winner w files = Inr (x, why)"
  shows "x \<in> set files"
proof (cases "2 \<le> length files")
  case True
  from select_winner_many [OF True, of w] obtain ranked where
    perm: "mset ranked = mset files" and
    sw: "select_winner w files = Inr (ranked ! 0, reason_for w (ranked ! 0) (ranked ! 1))"
    by blast
  from perm have "set ranked = set files" and "length ranked = length files"
    by (metis set_mset_mset, metis size_mset)
  with True have "ranked ! 0 \<in> set files"
    by (metis nth_mem length_greater_0_conv list.size(3) not_numeral_le_zero)
  with sw assms show ?thesis
    by simp
next
  case False
  then have "files = [] \<or> (\<exists>f. files = [f])"
    by (cases files; cases "tl files") auto
  with assms show ?thesis
    by (auto simp: select_winner_empty select_winner_single)
qed

text \<open>
  C2. A single file wins as the only file in its group. Of two or more files the winner is
  the first of the candidates ranked by resolution descending, then byte size descending,
  then path ascending, and the reason names the first criterion in which the winner beats
  the runner-up: resolution, then size, else the alphabetically first path.
\<close>

theorem select_winner_ranking:
  "select_winner w [f] = Inr (f, ''only file in group'') \<and>
   (2 \<le> length files \<longrightarrow>
      (\<exists>ranked. mset ranked = mset files \<and> sorted_wrt (ranks_before w) ranked \<and>
         select_winner w files = Inr (ranked ! 0, reason_for w (ranked ! 0) (ranked ! 1))))"
  using select_winner_single select_winner_many by blast

lemma select_winner_two_photos:
  "select_winner two_photos [''a.jpg'', ''b.jpg''] =
     Inr (''b.jpg'', ''highest resolution (200x200)'')"
  by (simp add: select_winner_def collect_meta_def get_image_dimensions_def sort_key_meta_def
      str_opt_def str_nat.simps digit_char_def two_photos_def table_eval
      less_eq_prod_def less_prod_def)

theorem select_winner_ranking_witness:
  "2 \<le> length [''a.jpg'', ''b.jpg''] \<and>
   (\<exists>ranked. mset ranked = mset [''a.jpg'', ''b.jpg''] \<and>
      sorted_wrt (ranks_before two_photos) ranked \<and>
      select_winner two_photos [''a.jpg'', ''b.jpg''] =
        Inr (ranked ! 0, reason_for two_photos (ranked ! 0) (ranked ! 1))) \<and>
   select_winner two_photos [''a.jpg'', ''b.jpg''] =
     Inr (''b.jpg'', ''highest resolution (200x200)'')"
proof -
  have len: "2 \<le> length [''a.jpg'', ''b.jpg'']"
    by simp
  from select_winner_ranking [of two_photos "''a.jpg''" "[''a.jpg'', ''b.jpg'']"] len
  have "\<exists>ranked. mset ranked = mset [''a.jpg'', ''b.jpg''] \<and>
      sorted_wrt (ranks_before two_photos) ranked \<and>
      select_winner two_photos [''a.jpg'', ''b.jpg''] =
        Inr (ranked ! 0, reason_for two_photos (ranked ! 0) (ranked ! 1))"
    by blast
  with len select_winner_two_photos show ?thesis
    by blast
qed

section \<open>Facts about the Hamming distance\<close>

lemma Collect_less_Suc_split:
  "{i. i < Suc n \<and> P i} = (if P 0 then {0} else {}) \<union> Suc ` {i. i < n \<and> P (Suc i)}"
proof (rule set_eqI)
  fix i
  show "i \<in> {i. i < Suc n \<and> P i} \<longleftrightarrow>
        i \<in> (if P 0 then {0} else {}) \<union> Suc ` {i. i < n \<and> P (Suc i)}"
    by (cases i) (auto simp: image_iff)
qed

lemma differing_bits_card:
  "length a = length b \<Longrightarrow> differing_bits a b = card {i. i < length a \<and> a ! i \<noteq> b ! i}"
proof (induction a b rule: list_induct2)
  case Nil
  then show ?case by (simp add: differing_bits_def)
next
  case (Cons x xs y ys)
  let ?S = "{i. i < length xs \<and> xs ! i \<noteq> ys ! i}"
  have fin: "finite ?S" by simp
  have "card {i. i < length (x # xs) \<and> (x # xs) ! i \<noteq> (y # ys) ! i} =
      card ((if x \<noteq> y then {0} else {}) \<union> Suc ` ?S)"
    using Collect_less_Suc_split [of "length xs" "\<lambda>i. (x # xs) ! i \<noteq> (y # ys) ! i"]
    by simp
  also have "\<dots> = (if x \<noteq> y then 1 else 0) + card ?S"
    using fin by (auto simp: card_insert_if card_image)
  finally show ?case
    using Cons.IH by (simp add: differing_bits_def)
qed

text \<open>
  C4, as the code has it. \<^verbatim>\<open>hamming_distance\<close> never fails. With the library present it
  returns the number of differing bits when both strings decode to fingerprints of the same
  length, and 999 when the lengths differ (the \<^verbatim>\<open>TypeError\<close> of the subtraction is caught)
  or when a string does not decode. Without the library it returns 0 for every pair.
\<close>

theorem hamming_distance_returns:
  "(IMAGEHASH_AVAILABLE w \<and> hex_to_hash w a = Some x \<and> hex_to_hash w b = Some y \<longrightarrow>
      hamming_distance w a b =
        (if length x = length y then card {i. i < length x \<and> x ! i \<noteq> y ! i} else 999)) \<and>
   (IMAGEHASH_AVAILABLE w \<and> (hex_to_hash w a = None \<or> hex_to_hash w b = None) \<longrightarrow>
      hamming_distance w a b = 999) \<and>
   (\<not> IMAGEHASH_AVAILABLE w \<longrightarrow> hamming_distance w a b = 0)"
  by (auto simp: hamming_distance_def hash_sub_def differing_bits_card split: option.splits)

lemma hamming_distance_0007_00f0: "hamming_distance bare_world ''0007'' ''00f0'' = 7"
  by (simp add: hamming_distance_def hash_sub_def differing_bits_def bare_world_def table_eval)

lemma decode_ffff:
  "\<exists>x y. hex_to_hash bare_world ''ffff'' = Some x \<and>
         hex_to_hash bare_world ''ffffffffffffffff'' = Some y \<and> length x \<noteq> length y"
  by (simp add: bare_world_def table_eval)

theorem hamming_distance_returns_witness:
  "IMAGEHASH_AVAILABLE bare_world \<and>
   hex_to_hash bare_world ''0007'' = Some bits_0007 \<and>
   hex_to_hash bare_world ''00f0'' = Some bits_00f0 \<and>
   hamming_distance bare_world ''0007'' ''00f0'' =
     (if length bits_0007 = length bits_00f0
      then card {i. i < length bits_0007 \<and> bits_0007 ! i \<noteq> bits_00f0 ! i} else 999) \<and>
   hamming_distance bare_world ''0007'' ''00f0'' = 7 \<and>
   (\<exists>x y. hex_to_hash bare_world ''ffff'' = Some x \<and>
          hex_to_hash bare_world ''ffffffffffffffff'' = Some y \<and> length x \<noteq> length y) \<and>
   hamming_distance bare_world ''ffff'' ''ffffffffffffffff'' = 999 \<and>
   hex_to_hash bare_world ''wxyz'' = None \<and>
   hamming_distance bare_world ''wxyz'' ''0007'' = 999 \<and>
   \<not> IMAGEHASH_AVAILABLE no_library_world \<and>
   hamming_distance no_library_world ''0007'' ''00f0'' = 0"
proof -
  have av: "IMAGEHASH_AVAILABLE bare_world"
    by (simp add: bare_world_def table_eval)
  have ha: "hex_to_hash bare_world ''0007'' = Some bits_0007"
    by (simp add: bare_world_def table_eval bits_0007_def)
  have hb: "hex_to_hash bare_world ''00f0'' = Some bits_00f0"
    by (simp add: bare_world_def table_eval bits_00f0_def)
  from decode_ffff obtain x y where
    xy: "hex_to_hash bare_world ''ffff'' = Some x"
      "hex_to_hash bare_world ''ffffffffffffffff'' = Some y" "length x \<noteq> length y"
    by blast
  have hn: "hex_to_hash bare_world ''wxyz'' = None"
    by (simp add: bare_world_def table_eval)
  have nl: "\<not> IMAGEHASH_AVAILABLE no_library_world"
    by (simp add: no_library_world_def bare_world_def table_eval)
  from av ha hb hamming_distance_returns [of bare_world "''0007''" bits_0007 "''00f0''" bits_00f0]
  have 1: "hamming_distance bare_world ''0007'' ''00f0'' =
     (if length bits_0007 = length bits_00f0
      then card {i. i < length bits_0007 \<and> bits_0007 ! i \<noteq> bits_00f0 ! i} else 999)"
    by blast
  from av xy hamming_distance_returns [of bare_world "''ffff''" x "''ffffffffffffffff''" y]
  have 2: "hamming_distance bare_world ''ffff'' ''ffffffffffffffff'' = 999"
    by simp
  from av hn hamming_distance_returns [of bare_world "''wxyz''" x "''0007''" y]
  have 3: "hamming_distance bare_world ''wxyz'' ''0007'' = 999"
    by blast
  from nl hamming_distance_returns [of no_library_world "''0007''" x "''00f0''" y]
  have 4: "hamming_distance no_library_world ''0007'' ''00f0'' = 0"
    by blast
  from av ha hb 1 hamming_distance_0007_00f0 decode_ffff 2 hn 3 nl 4
  show ?thesis
    by blast
qed

text \<open>
  The claim as it is written fails twice. A 16-bit and a 64-bit fingerprint cannot be
  subtracted, and the function returns 999 for them instead of failing. Without the library
  the function returns 0 for two 16-bit fingerprints that differ in seven bits.
\<close>

theorem hamming_distance_no_failure:
  "(case (hex_to_hash bare_world ''ffff'', hex_to_hash bare_world ''ffffffffffffffff'') of
      (Some x, Some y) \<Rightarrow> length x \<noteq> length y \<and> hash_sub x y = Inl TypeError
    | _ \<Rightarrow> False) \<and>
   hamming_distance bare_world ''ffff'' ''ffffffffffffffff'' = 999 \<and>
   (case (hex_to_hash no_library_world ''0007'', hex_to_hash no_library_world ''00f0'') of
      (Some x, Some y) \<Rightarrow> length x = length y \<and> differing_bits x y = 7
    | _ \<Rightarrow> False) \<and>
   hamming_distance no_library_world ''0007'' ''00f0'' = 0"
  by (simp add: hamming_distance_def hash_sub_def differing_bits_def bare_world_def
      no_library_world_def table_eval)

section \<open>The caches do not change what a run computes\<close>

lemma same_views_refl: "same_views w hc hc"
  by (simp add: same_views_def)

lemma same_views_trans:
  "same_views w hc hc' \<Longrightarrow> same_views w hc' hc'' \<Longrightarrow> same_views w hc hc''"
  by (simp add: same_views_def)

lemma get_sha256_view:
  assumes "get_sha256 w hc p True = (r, hc')"
  shows "r = (case sha_view w hc p of Some h \<Rightarrow> Inr h | None \<Rightarrow> Inl IOError)"
    and "same_views w hc hc'"
proof -
  show "r = (case sha_view w hc p of Some h \<Rightarrow> Inr h | None \<Rightarrow> Inl IOError)"
    using assms by (auto simp: get_sha256_def sha_view_def split: option.splits)
  have "sha_view w hc' = sha_view w hc"
    using assms by (auto simp: get_sha256_def sha_view_def fun_eq_iff split: option.splits if_splits)
  moreover have "phash_view w hc' = phash_view w hc"
    using assms by (auto simp: get_sha256_def phash_view_def fun_eq_iff split: option.splits)
  ultimately show "same_views w hc hc'"
    by (simp add: same_views_def)
qed

lemma get_phash_view:
  assumes "get_phash w hc p True = (r, hc')"
  shows "r = phash_view w hc p" and "same_views w hc hc'"
proof -
  show "r = phash_view w hc p"
    using assms by (auto simp: get_phash_def phash_view_def split: option.splits if_splits)
  have "sha_view w hc' = sha_view w hc"
    using assms by (auto simp: get_phash_def sha_view_def fun_eq_iff split: option.splits if_splits)
  moreover have "phash_view w hc' = phash_view w hc"
    using assms by (auto simp: get_phash_def phash_view_def fun_eq_iff split: option.splits if_splits)
  ultimately show "same_views w hc hc'"
    by (simp add: same_views_def)
qed

lemma hash_files_pure:
  "hash_files w files tbl hc = (tbl', hc') \<Longrightarrow>
     tbl' = bucket_files (sha_view w hc) files tbl \<and> same_views w hc hc'"
proof (induction files arbitrary: tbl hc)
  case Nil
  then show ?case by (simp add: same_views_refl)
next
  case (Cons p ps)
  obtain r hc1 where g: "get_sha256 w hc p True = (r, hc1)"
    by (cases "get_sha256 w hc p True")
  note v = get_sha256_view [OF g]
  have sv: "sha_view w hc1 = sha_view w hc"
    using v(2) by (simp add: same_views_def)
  show ?case
  proof (cases "sha_view w hc p")
    case None
    with v(1) have "r = Inl IOError" by simp
    with Cons.prems g have "hash_files w ps tbl hc1 = (tbl', hc')" by simp
    from Cons.IH [OF this] v(2) None show ?thesis
      by (auto simp: sv intro: same_views_trans)
  next
    case (Some h)
    with v(1) have "r = Inr h" by simp
    with Cons.prems g have "hash_files w ps (append_to_bucket h p tbl) hc1 = (tbl', hc')" by simp
    from Cons.IH [OF this] v(2) Some show ?thesis
      by (auto simp: sv intro: same_views_trans)
  qed
qed

lemma find_exact_duplicates_pure:
  "find_exact_duplicates w hc files = (gs, hc') \<Longrightarrow>
     gs = exact_groups (sha_view w hc) files \<and> same_views w hc hc'"
  by (auto simp: find_exact_duplicates_def exact_groups_def Let_def
      split: prod.splits dest: hash_files_pure)

lemma phash_files_pure:
  "phash_files w files items hc = (items', hc') \<Longrightarrow>
     items' = fingerprint_files (phash_view w hc) files items \<and> same_views w hc hc'"
proof (induction files arbitrary: items hc)
  case Nil
  then show ?case by (simp add: same_views_refl)
next
  case (Cons p ps)
  obtain r hc1 where g: "get_phash w hc p True = (r, hc1)"
    by (cases "get_phash w hc p True")
  note v = get_phash_view [OF g]
  have pv: "phash_view w hc1 = phash_view w hc"
    using v(2) by (simp add: same_views_def)
  show ?case
  proof (cases "phash_view w hc p")
    case None
    with v(1) have "r = None" by simp
    with Cons.prems g have "phash_files w ps items hc1 = (items', hc')" by simp
    from Cons.IH [OF this] v(2) None show ?thesis
      by (auto simp: pv intro: same_views_trans)
  next
    case (Some h)
    with v(1) have r: "r = Some h" by simp
    show ?thesis
    proof (cases "h = []")
      case True
      with r Cons.prems g have "phash_files w ps items hc1 = (items', hc')" by simp
      from Cons.IH [OF this] v(2) Some True show ?thesis
        by (auto simp: pv intro: same_views_trans)
    next
      case False
      with r Cons.prems g have "phash_files w ps (dict_set p h items) hc1 = (items', hc')"
        by simp
      from Cons.IH [OF this] v(2) Some False show ?thesis
        by (auto simp: pv intro: same_views_trans)
    qed
  qed
qed

lemma find_perceptual_duplicates_pure:
  "find_perceptual_duplicates w thr hc files = (gs, hc') \<Longrightarrow>
     gs = perceptual_groups w (phash_view w hc) thr files \<and> same_views w hc hc'"
  by (auto simp: find_perceptual_duplicates_def perceptual_groups_def Let_def
      split: prod.splits dest: phash_files_pure)

lemma get_file_metadata_pure:
  assumes "get_file_metadata w hc p = (r, hc')"
  shows "r = file_metadata_of w (sha_view w hc) p" and "same_views w hc hc'"
proof -
  obtain r0 hc0 where g: "get_sha256 w hc p True = (r0, hc0)"
    by (cases "get_sha256 w hc p True")
  note v = get_sha256_view [OF g]
  from assms g have hc': "hc' = hc0"
    by (auto simp: get_file_metadata_def Let_def split: prod.splits sum.splits)
  with v(2) show "same_views w hc hc'" by simp
  from assms g v(1) show "r = file_metadata_of w (sha_view w hc) p"
    by (auto simp: get_file_metadata_def file_metadata_of_def Let_def
        split: prod.splits sum.splits option.splits)
qed

lemma get_file_metadata_list_pure:
  "get_file_metadata_list w hc ps = (r, hc') \<Longrightarrow>
     r = metadata_list_of w (sha_view w hc) ps \<and> same_views w hc hc'"
proof (induction ps arbitrary: hc r hc')
  case Nil
  then show ?case by (simp add: same_views_refl)
next
  case (Cons p ps)
  obtain r1 hc1 where g: "get_file_metadata w hc p = (r1, hc1)"
    by (cases "get_file_metadata w hc p")
  note v = get_file_metadata_pure [OF g]
  have sv: "sha_view w hc1 = sha_view w hc"
    using v(2) by (simp add: same_views_def)
  show ?case
  proof (cases r1)
    case (Inl e)
    with Cons.prems g have "r = Inl e" and "hc' = hc1"
      by simp_all
    moreover from v(1) Inl have "file_metadata_of w (sha_view w hc) p = Inl e"
      by simp
    ultimately show ?thesis
      using v(2) by simp
  next
    case (Inr m)
    obtain r2 hc2 where g2: "get_file_metadata_list w hc1 ps = (r2, hc2)"
      by (cases "get_file_metadata_list w hc1 ps")
    from Cons.IH [OF g2] have ih: "r2 = metadata_list_of w (sha_view w hc) ps"
      and v2: "same_views w hc1 hc2"
      by (simp_all add: sv)
    from Cons.prems g g2 Inr have "hc' = hc2"
      by (auto split: sum.splits)
    moreover from v(1) Inr have "file_metadata_of w (sha_view w hc) p = Inr m"
      by simp
    with Cons.prems g g2 Inr ih
    have "r = metadata_list_of w (sha_view w hc) (p # ps)"
      by (auto split: sum.splits)
    ultimately show ?thesis
      using v(2) v2 by (auto intro: same_views_trans)
  qed
qed

lemma build_groups_pure:
  "build_groups w dtype plan gid d = (r, d') \<Longrightarrow>
     (\<exists>gs. plan_groups w (sha_view w (hash_calc d)) dtype plan gid = (r, gs) \<and>
           duplicate_groups d' = duplicate_groups d @ gs) \<and>
     same_views w (hash_calc d) (hash_calc d') \<and>
     mode d' = mode d \<and> phash_threshold d' = phash_threshold d"
proof (induction plan arbitrary: gid d r d')
  case Nil
  then show ?case by (auto simp: same_views_refl)
next
  case (Cons entry rest)
  obtain fs dist where entry: "entry = (fs, dist)"
    by (cases entry)
  let ?sv = "sha_view w (hash_calc d)"
  show ?case
  proof (cases "select_winner w fs")
    case (Inl e)
    with Cons.prems entry have "r = Inl e" and "d' = d"
      by simp_all
    with Inl entry show ?thesis
      by (simp add: make_group_def same_views_refl)
  next
    case (Inr ww)
    obtain win why where ww: "ww = (win, why)"
      by (cases ww)
    let ?dups = "filter (\<lambda>f. f \<noteq> win) fs"
    obtain r1 hc1 where g1: "get_file_metadata w (hash_calc d) win = (r1, hc1)"
      by (cases "get_file_metadata w (hash_calc d) win")
    note v1 = get_file_metadata_pure [OF g1]
    have sv1: "sha_view w hc1 = ?sv"
      using v1(2) by (simp add: same_views_def)
    show ?thesis
    proof (cases r1)
      case (Inl e)
      with Cons.prems entry Inr ww g1 have "r = Inl e" and "d' = d\<lparr>hash_calc := hc1\<rparr>"
        by simp_all
      moreover from v1(1) Inl have "file_metadata_of w ?sv win = Inl e"
        by simp
      ultimately show ?thesis
        using Inr ww entry v1(2) by (simp add: make_group_def)
    next
      case wm: (Inr wmeta)
      then have fm: "file_metadata_of w ?sv win = Inr wmeta"
        using v1(1) by simp
      obtain r2 hc2 where g2: "get_file_metadata_list w hc1 ?dups = (r2, hc2)"
        by (cases "get_file_metadata_list w hc1 ?dups")
      from get_file_metadata_list_pure [OF g2]
      have ml: "r2 = metadata_list_of w ?sv ?dups" and v2: "same_views w hc1 hc2"
        by (simp_all add: sv1)
      have v12: "same_views w (hash_calc d) hc2"
        using v1(2) v2 by (rule same_views_trans)
      then have sv2: "sha_view w hc2 = ?sv"
        by (simp add: same_views_def)
      show ?thesis
      proof (cases r2)
        case (Inl e)
        with Cons.prems entry Inr ww g1 wm g2
        have "r = Inl e" and "d' = d\<lparr>hash_calc := hc2\<rparr>"
          by simp_all
        moreover from ml Inl have "metadata_list_of w ?sv ?dups = Inl e"
          by simp
        ultimately show ?thesis
          using Inr ww entry fm v12 by (simp add: make_group_def)
      next
        case dm: (Inr dmeta)
        let ?g = "\<lparr>group_id = gid, detection_type = dtype, winner = win,
                   duplicates = ?dups, winner_metadata = wmeta,
                   duplicate_metadata = dmeta, reason = why, phash_distance = dist\<rparr>"
        let ?d2 = "d\<lparr>hash_calc := hc2, duplicate_groups := duplicate_groups d @ [?g]\<rparr>"
        from Cons.prems entry Inr ww g1 wm g2 dm
        have rec: "build_groups w dtype rest (gid + 1) ?d2 = (r, d')"
          by (simp add: Let_def)
        from Cons.IH [OF rec] obtain gs where
          pg: "plan_groups w ?sv dtype rest (gid + 1) = (r, gs)" and
          dg: "duplicate_groups d' = (duplicate_groups d @ [?g]) @ gs" and
          v3: "same_views w hc2 (hash_calc d')" and
          md: "mode d' = mode d" "phash_threshold d' = phash_threshold d"
          by (auto simp: sv2)
        from ml dm have "metadata_list_of w ?sv ?dups = Inr dmeta"
          by simp
        with Inr ww entry fm have mg: "make_group w ?sv dtype gid entry = Inr ?g"
          by (simp add: make_group_def)
        from mg pg dg have "\<exists>gs'. plan_groups w ?sv dtype (entry # rest) gid = (r, gs') \<and>
            duplicate_groups d' = duplicate_groups d @ gs'"
          by simp
        with v12 v3 md show ?thesis
          by (blast intro: same_views_trans)
      qed
    qed
  qed
qed

lemma exact_pass_pure:
  assumes "exact_pass w d files = (r, d')"
  shows "\<exists>gs. exact_plan w (sha_view w (hash_calc d)) (mode d) files = (r, gs) \<and>
           duplicate_groups d' = duplicate_groups d @ gs"
    and "same_views w (hash_calc d) (hash_calc d')"
    and "mode d' = mode d" and "phash_threshold d' = phash_threshold d"
proof -
  let ?sv = "sha_view w (hash_calc d)"
  have "(\<exists>gs. exact_plan w ?sv (mode d) files = (r, gs) \<and>
           duplicate_groups d' = duplicate_groups d @ gs) \<and>
      same_views w (hash_calc d) (hash_calc d') \<and> mode d' = mode d \<and>
      phash_threshold d' = phash_threshold d"
  proof (cases "mode d \<in> set [''exact'', ''exact+perceptual'']")
    case False
    with assms show ?thesis
      by (auto simp: exact_pass_def exact_plan_def same_views_refl)
  next
    case True
    obtain eg hc where fe: "find_exact_duplicates w (hash_calc d) files = (eg, hc)"
      by (cases "find_exact_duplicates w (hash_calc d) files")
    from find_exact_duplicates_pure [OF fe]
    have eg: "eg = exact_groups ?sv files" and v0: "same_views w (hash_calc d) hc"
      by simp_all
    then have sv0: "sha_view w hc = ?sv"
      by (simp add: same_views_def)
    from True assms fe
    have "build_groups w ''exact'' (map (\<lambda>g. (g, None)) eg) 0 (d\<lparr>hash_calc := hc\<rparr>) = (r, d')"
      by (simp add: exact_pass_def)
    from build_groups_pure [OF this] True eg v0 show ?thesis
      by (auto simp: exact_plan_def sv0 intro: same_views_trans)
  qed
  then show "\<exists>gs. exact_plan w ?sv (mode d) files = (r, gs) \<and>
           duplicate_groups d' = duplicate_groups d @ gs"
    and "same_views w (hash_calc d) (hash_calc d')"
    and "mode d' = mode d" and "phash_threshold d' = phash_threshold d"
    by simp_all
qed

lemma perceptual_pass_pure:
  assumes "perceptual_pass w gid d files = (r, d')"
  shows "\<exists>gs. perceptual_plan w (sha_view w (hash_calc d)) (phash_view w (hash_calc d)) (mode d)
             (phash_threshold d) gid (duplicate_groups d) files = (r, gs) \<and>
           duplicate_groups d' = duplicate_groups d @ gs"
    and "same_views w (hash_calc d) (hash_calc d')"
    and "mode d' = mode d" and "phash_threshold d' = phash_threshold d"
proof -
  let ?sv = "sha_view w (hash_calc d)" and ?pv = "phash_view w (hash_calc d)"
  have "(\<exists>gs. perceptual_plan w ?sv ?pv (mode d) (phash_threshold d) gid (duplicate_groups d)
             files = (r, gs) \<and>
           duplicate_groups d' = duplicate_groups d @ gs) \<and>
      same_views w (hash_calc d) (hash_calc d') \<and> mode d' = mode d \<and>
      phash_threshold d' = phash_threshold d"
  proof (cases "mode d \<in> set [''perceptual'', ''exact+perceptual'']")
    case False
    with assms show ?thesis
      by (auto simp: perceptual_pass_def perceptual_plan_def same_views_refl)
  next
    case True
    let ?rem = "filter (\<lambda>f. f \<notin> processed_files_of (duplicate_groups d)) files"
    obtain pg hc where fp:
      "find_perceptual_duplicates w (phash_threshold d) (hash_calc d) ?rem = (pg, hc)"
      by (cases "find_perceptual_duplicates w (phash_threshold d) (hash_calc d) ?rem")
    from find_perceptual_duplicates_pure [OF fp]
    have pg: "pg = perceptual_groups w ?pv (phash_threshold d) ?rem"
      and v0: "same_views w (hash_calc d) hc"
      by simp_all
    then have sv0: "sha_view w hc = ?sv"
      by (simp add: same_views_def)
    from True assms fp
    have "build_groups w ''perceptual'' (map (\<lambda>(g, dist). (g, Some dist)) pg) gid
            (d\<lparr>hash_calc := hc\<rparr>) = (r, d')"
      by (simp add: perceptual_pass_def Let_def)
    from build_groups_pure [OF this] True pg v0 show ?thesis
      by (auto simp: perceptual_plan_def sv0 intro: same_views_trans)
  qed
  then show "\<exists>gs. perceptual_plan w ?sv ?pv (mode d) (phash_threshold d) gid (duplicate_groups d)
             files = (r, gs) \<and>
           duplicate_groups d' = duplicate_groups d @ gs"
    and "same_views w (hash_calc d) (hash_calc d')"
    and "mode d' = mode d" and "phash_threshold d' = phash_threshold d"
    by simp_all
qed

lemma create_duplicate_groups_pure:
  assumes "create_duplicate_groups w d files = (r, d')"
  shows "run_groups w (sha_view w (hash_calc d)) (phash_view w (hash_calc d)) (mode d)
           (phash_threshold d) files = (r, duplicate_groups d')"
    and "same_views w (hash_calc d) (hash_calc d')"
    and "mode d' = mode d" and "phash_threshold d' = phash_threshold d"
proof -
  let ?sv = "sha_view w (hash_calc d)" and ?pv = "phash_view w (hash_calc d)"
  let ?d0 = "d\<lparr>duplicate_groups := []\<rparr>"
  obtain r1 d1 where s1: "exact_pass w ?d0 files = (r1, d1)"
    by (cases "exact_pass w ?d0 files")
  from exact_pass_pure [OF s1]
  have p1: "exact_plan w ?sv (mode d) files = (r1, duplicate_groups d1)"
    and v1: "same_views w (hash_calc d) (hash_calc d1)"
    and m1: "mode d1 = mode d" "phash_threshold d1 = phash_threshold d"
    by auto
  have sv1: "sha_view w (hash_calc d1) = ?sv" and pv1: "phash_view w (hash_calc d1) = ?pv"
    using v1 by (simp_all add: same_views_def)
  have "run_groups w ?sv ?pv (mode d) (phash_threshold d) files = (r, duplicate_groups d') \<and>
      same_views w (hash_calc d) (hash_calc d') \<and> mode d' = mode d \<and>
      phash_threshold d' = phash_threshold d"
  proof (cases r1)
    case (Inl e)
    with assms s1 have "r = Inl e" and "d' = d1"
      by (simp_all add: create_duplicate_groups_def)
    with Inl p1 v1 m1 show ?thesis
      by (simp add: run_groups_def)
  next
    case (Inr gid)
    obtain r2 d2 where s2: "perceptual_pass w gid d1 files = (r2, d2)"
      by (cases "perceptual_pass w gid d1 files")
    from perceptual_pass_pure [OF s2] obtain gs2 where
      p2: "perceptual_plan w ?sv ?pv (mode d) (phash_threshold d) gid (duplicate_groups d1) files
             = (r2, gs2)"
      and dg2: "duplicate_groups d2 = duplicate_groups d1 @ gs2"
      and v2: "same_views w (hash_calc d1) (hash_calc d2)"
      and m2: "mode d2 = mode d" "phash_threshold d2 = phash_threshold d"
      by (auto simp: sv1 pv1 m1)
    have v02: "same_views w (hash_calc d) (hash_calc d2)"
      using v1 v2 by (rule same_views_trans)
    from assms s1 s2 Inr
    have res: "(r, d') = (case r2 of Inl e \<Rightarrow> (Inl e, d2) | Inr _ \<Rightarrow> (Inr (duplicate_groups d2), d2))"
      by (simp add: create_duplicate_groups_def)
    from p1 p2 Inr
    have "run_groups w ?sv ?pv (mode d) (phash_threshold d) files =
          (case r2 of Inl e \<Rightarrow> (Inl e, duplicate_groups d1 @ gs2)
           | Inr _ \<Rightarrow> (Inr (duplicate_groups d1 @ gs2), duplicate_groups d1 @ gs2))"
      by (simp add: run_groups_def)
    with res dg2 v02 m2 show ?thesis
      by (cases r2) auto
  qed
  then show "run_groups w ?sv ?pv (mode d) (phash_threshold d) files = (r, duplicate_groups d')"
    and "same_views w (hash_calc d) (hash_calc d')"
    and "mode d' = mode d" and "phash_threshold d' = phash_threshold d"
    by simp_all
qed

section \<open>Facts about the groups of one pass\<close>

lemma make_group_props:
  assumes "make_group w sv dtype gid entry = Inr g"
  shows "group_id g = gid" and "detection_type g = dtype"
    and "select_winner w (fst entry) = Inr (winner g, reason g)"
    and "duplicates g = filter (\<lambda>f. f \<noteq> winner g) (fst entry)"
    and "phash_distance g = snd entry"
    and "winner g \<in> set (fst entry)"
    and "group_files g = set (fst entry)"
proof -
  from assms obtain win why wmeta dmeta where
    sw: "select_winner w (fst entry) = Inr (win, why)" and
    g: "g = \<lparr>group_id = gid, detection_type = dtype, winner = win,
             duplicates = filter (\<lambda>f. f \<noteq> win) (fst entry),
             winner_metadata = wmeta, duplicate_metadata = dmeta, reason = why,
             phash_distance = snd entry\<rparr>"
    by (auto simp: make_group_def split: sum.splits prod.splits)
  from g show "group_id g = gid" and "detection_type g = dtype"
    and "duplicates g = filter (\<lambda>f. f \<noteq> winner g) (fst entry)"
    and "phash_distance g = snd entry"
    by simp_all
  from sw g show "select_winner w (fst entry) = Inr (winner g, reason g)"
    by simp
  from select_winner_member [OF sw] g show mem: "winner g \<in> set (fst entry)"
    by simp
  from mem g show "group_files g = set (fst entry)"
    by (auto simp: group_files_def)
qed

lemma plan_groups_props:
  "plan_groups w sv dtype plan gid = (r, gs) \<Longrightarrow>
     length gs \<le> length plan \<and>
     (\<forall>i < length gs. make_group w sv dtype (gid + i) (plan ! i) = Inr (gs ! i)) \<and>
     (case r of Inr n \<Rightarrow> length gs = length plan \<and> n = gid + length plan
      | Inl e \<Rightarrow> length gs < length plan)"
proof (induction plan arbitrary: gid r gs)
  case Nil
  then show ?case by auto
next
  case (Cons entry rest)
  show ?case
  proof (cases "make_group w sv dtype gid entry")
    case (Inl e)
    with Cons.prems show ?thesis by auto
  next
    case (Inr g)
    obtain r' gs' where pg: "plan_groups w sv dtype rest (gid + 1) = (r', gs')"
      by (cases "plan_groups w sv dtype rest (gid + 1)")
    with Cons.prems Inr have r: "r = r'" and gs: "gs = g # gs'"
      by simp_all
    from Cons.IH [OF pg] have
      len: "length gs' \<le> length rest" and
      each: "\<forall>i < length gs'. make_group w sv dtype (gid + 1 + i) (rest ! i) = Inr (gs' ! i)" and
      res: "case r' of Inr n \<Rightarrow> length gs' = length rest \<and> n = gid + 1 + length rest
            | Inl e \<Rightarrow> length gs' < length rest"
      by simp_all
    have "\<forall>i < length gs. make_group w sv dtype (gid + i) ((entry # rest) ! i) = Inr (gs ! i)"
    proof (intro allI impI)
      fix i assume "i < length gs"
      then show "make_group w sv dtype (gid + i) ((entry # rest) ! i) = Inr (gs ! i)"
        using Inr each gs by (cases i) auto
    qed
    with len res r gs show ?thesis
      by (auto split: sum.splits)
  qed
qed

lemma plan_groups_files:
  assumes "plan_groups w sv dtype plan gid = (r, gs)"
  shows "map group_files gs = map (\<lambda>e. set (fst e)) (take (length gs) plan)"
    and "map group_id gs = [gid ..< gid + length gs]"
    and "\<forall>g \<in> set gs. detection_type g = dtype \<and> winner g \<notin> set (duplicates g)"
proof -
  note pp = plan_groups_props [OF assms]
  show "map group_files gs = map (\<lambda>e. set (fst e)) (take (length gs) plan)"
    using pp by (auto simp: list_eq_iff_nth_eq make_group_props(7))
  show "map group_id gs = [gid ..< gid + length gs]"
  proof (rule nth_equalityI)
    show "length (map group_id gs) = length [gid ..< gid + length gs]"
      by simp
  next
    fix i assume "i < length (map group_id gs)"
    then have i: "i < length gs" by simp
    with pp have "make_group w sv dtype (gid + i) (plan ! i) = Inr (gs ! i)"
      by blast
    from make_group_props(1) [OF this] i
    show "map group_id gs ! i = [gid ..< gid + length gs] ! i"
      by simp
  qed
  show "\<forall>g \<in> set gs. detection_type g = dtype \<and> winner g \<notin> set (duplicates g)"
  proof
    fix g assume "g \<in> set gs"
    then obtain i where "i < length gs" and "gs ! i = g"
      by (auto simp: in_set_conv_nth)
    with pp have mg: "make_group w sv dtype (gid + i) (plan ! i) = Inr g"
      by auto
    have "set (duplicates g) = {f \<in> set (fst (plan ! i)). f \<noteq> winner g}"
      by (subst make_group_props(4) [OF mg]) auto
    with make_group_props(2) [OF mg]
    show "detection_type g = dtype \<and> winner g \<notin> set (duplicates g)"
      by simp
  qed
qed

lemma keys_append_to_bucket:
  "map fst (append_to_bucket h p tbl) =
     (if h \<in> fst ` set tbl then map fst tbl else map fst tbl @ [h])"
  by (induction tbl) (force split: if_splits)+

lemma set_append_to_bucket:
  "(k, ps) \<in> set (append_to_bucket h p tbl) \<Longrightarrow>
     (k, ps) \<in> set tbl \<or> (k = h \<and> (ps = [p] \<or> (\<exists>qs. (h, qs) \<in> set tbl \<and> ps = qs @ [p])))"
  by (induction tbl) (auto split: if_splits)

lemma append_to_bucket_ok:
  assumes "tbl_ok sv tbl" and "sv p = Some h"
  shows "tbl_ok sv (append_to_bucket h p tbl)"
proof -
  have "distinct (map fst (append_to_bucket h p tbl))"
    using assms(1) by (auto simp: keys_append_to_bucket tbl_ok_def)
  moreover have "\<forall>(k, ps) \<in> set (append_to_bucket h p tbl). \<forall>q \<in> set ps. sv q = Some k"
  proof (clarify)
    fix k ps q
    assume "(k, ps) \<in> set (append_to_bucket h p tbl)" and q: "q \<in> set ps"
    from set_append_to_bucket [OF this(1)] q assms show "sv q = Some k"
      by (fastforce simp: tbl_ok_def)
  qed
  ultimately show ?thesis
    by (simp add: tbl_ok_def)
qed

lemma bucket_files_ok: "tbl_ok sv tbl \<Longrightarrow> tbl_ok sv (bucket_files sv files tbl)"
  by (induction files arbitrary: tbl) (auto split: option.splits intro: append_to_bucket_ok)

lemma tbl_ok_disjoint:
  "tbl_ok sv tbl \<Longrightarrow> sorted_wrt (\<lambda>a b. set a \<inter> set b = {}) (map snd tbl)"
proof (induction tbl)
  case Nil
  then show ?case by simp
next
  case (Cons e tbl)
  obtain k ps where e: "e = (k, ps)" by (cases e)
  from Cons.prems have ok: "tbl_ok sv tbl"
    by (auto simp: tbl_ok_def)
  have "\<forall>qs \<in> set (map snd tbl). set ps \<inter> set qs = {}"
  proof (clarsimp)
    fix k' qs assume in_tbl: "(k', qs) \<in> set tbl"
    with Cons.prems e have "k' \<noteq> k"
      by (force simp: tbl_ok_def)
    moreover have "\<forall>p \<in> set ps. sv p = Some k" and "\<forall>p \<in> set qs. sv p = Some k'"
      using Cons.prems e in_tbl by (auto simp: tbl_ok_def)
    ultimately show "set ps \<inter> set qs = {}"
      by fastforce
  qed
  with Cons.IH [OF ok] e show ?case
    by simp
qed

lemma mset_append_to_bucket:
  "mset (concat (map snd (append_to_bucket h p tbl))) = add_mset p (mset (concat (map snd tbl)))"
  by (induction tbl) auto

lemma mset_bucket_files:
  "mset (concat (map snd (bucket_files sv files tbl))) =
     mset (concat (map snd tbl)) + mset (filter (\<lambda>p. sv p \<noteq> None) files)"
  by (induction files arbitrary: tbl) (auto simp: mset_append_to_bucket split: option.splits)

lemma exact_groups_disjoint:
  "sorted_wrt (\<lambda>a b. set a \<inter> set b = {}) (exact_groups sv files)"
proof -
  have "tbl_ok sv (bucket_files sv files [])"
    by (rule bucket_files_ok) (simp add: tbl_ok_def)
  from tbl_ok_disjoint [OF this] show ?thesis
    unfolding exact_groups_def by (rule sorted_wrt_filter)
qed

lemma exact_groups_members:
  assumes "grp \<in> set (exact_groups sv files)"
  shows "set grp \<subseteq> {p \<in> set files. sv p \<noteq> None}" and "1 < length grp"
    and "distinct files \<Longrightarrow> distinct grp"
proof -
  let ?tbl = "bucket_files sv files []"
  from assms have in_tbl: "grp \<in> set (map snd ?tbl)" and len: "1 < length grp"
    by (auto simp: exact_groups_def)
  show "1 < length grp" by (rule len)
  have ms: "mset (concat (map snd ?tbl)) = mset (filter (\<lambda>p. sv p \<noteq> None) files)"
    by (simp add: mset_bucket_files)
  then have "set (concat (map snd ?tbl)) = set (filter (\<lambda>p. sv p \<noteq> None) files)"
    by (metis set_mset_mset)
  with in_tbl show "set grp \<subseteq> {p \<in> set files. sv p \<noteq> None}"
    by auto
  assume "distinct files"
  then have "distinct (filter (\<lambda>p. sv p \<noteq> None) files)"
    by simp
  with ms have "distinct (concat (map snd ?tbl))"
    by (metis mset_eq_imp_distinct_iff)
  with in_tbl show "distinct grp"
    by (auto simp: distinct_concat_iff)
qed

lemma near_Nil: "near w thr h1 P [] = []"
  by (simp add: near_def)

lemma near_Cons:
  "near w thr h1 P ((f2, h2) # rest) =
     (if f2 \<notin> P \<and> int (hamming_distance w h1 h2) \<le> thr
      then (f2, h2) # near w thr h1 P rest else near w thr h1 P rest)"
  by (simp add: near_def)

lemma scan_rest_eq:
  "scan_rest w thr h1 P rest (g, m) =
     (g @ map fst (near w thr h1 P rest),
      fold min_step (map (\<lambda>(f, h). hamming_distance w h1 h) (near w thr h1 P rest)) m)"
proof (induction rest arbitrary: g m)
  case Nil
  then show ?case by (simp add: near_Nil)
next
  case (Cons item rest)
  obtain f2 h2 where item: "item = (f2, h2)" by (cases item)
  show ?case
    by (cases "f2 \<in> P"; cases "int (hamming_distance w h1 h2) \<le> thr")
       (simp_all add: item Cons.IH near_Cons min_step_def Let_def)
qed

lemma fold_min_step_Some: "fold min_step ds (Some x) = Some (Min (insert x (set ds)))"
proof (induction ds arbitrary: x)
  case Nil
  then show ?case by simp
next
  case (Cons d ds)
  have "min_step d (Some x) = Some (min d x)"
    by (simp add: min_step_def min_def)
  moreover have "Min (insert (min d x) (set ds)) = Min (insert x (insert d (set ds)))"
    by (cases "set ds = {}") (simp_all add: min.commute min.left_commute)
  ultimately show ?case
    using Cons.IH [of "min d x"] by (simp add: insert_commute)
qed

lemma fold_min_step_None: "ds \<noteq> [] \<Longrightarrow> fold min_step ds None = Some (Min (set ds))"
  by (cases ds) (simp_all add: min_step_def fold_min_step_Some)

lemma cluster_avoids:
  "(grp, d) \<in> set (cluster w thr items P) \<Longrightarrow> set grp \<inter> P = {} \<and> set grp \<subseteq> fst ` set items"
proof (induction items arbitrary: P)
  case Nil
  then show ?case by simp
next
  case (Cons item rest)
  obtain f1 h1 where item: "item = (f1, h1)" by (cases item)
  let ?added = "near w thr h1 P rest"
  let ?g = "f1 # map fst ?added"
  show ?case
  proof (cases "f1 \<in> P")
    case True
    with Cons.prems item have "(grp, d) \<in> set (cluster w thr rest P)" by simp
    from Cons.IH [OF this] show ?thesis by auto
  next
    case False
    show ?thesis
    proof (cases "?added = []")
      case True
      with False Cons.prems item have "(grp, d) \<in> set (cluster w thr rest P)"
        by (simp add: scan_rest_eq)
      from Cons.IH [OF this] show ?thesis by auto
    next
      case ne: False
      with False Cons.prems item
      have "grp = ?g \<or> (grp, d) \<in> set (cluster w thr rest (P \<union> set ?g))"
        by (auto simp: scan_rest_eq)
      then show ?thesis
      proof
        assume "grp = ?g"
        with False item show ?thesis
          by (auto simp: near_def)
      next
        assume "(grp, d) \<in> set (cluster w thr rest (P \<union> set ?g))"
        from Cons.IH [OF this] show ?thesis by auto
      qed
    qed
  qed
qed

lemma cluster_disjoint:
  "sorted_wrt (\<lambda>a b. set a \<inter> set b = {}) (map fst (cluster w thr items P))"
proof (induction items arbitrary: P)
  case Nil
  then show ?case by simp
next
  case (Cons item rest)
  obtain f1 h1 where item: "item = (f1, h1)" by (cases item)
  let ?added = "near w thr h1 P rest"
  let ?g = "f1 # map fst ?added"
  show ?case
  proof (cases "f1 \<notin> P \<and> ?added \<noteq> []")
    case False
    then have "cluster w thr (item # rest) P = cluster w thr rest P"
      using item by (auto simp: scan_rest_eq)
    with Cons.IH show ?thesis by simp
  next
    case True
    then have eq: "map fst (cluster w thr (item # rest) P) =
        ?g # map fst (cluster w thr rest (P \<union> set ?g))"
      using item by (auto simp: scan_rest_eq)
    have "\<forall>g' \<in> set (map fst (cluster w thr rest (P \<union> set ?g))). set ?g \<inter> set g' = {}"
    proof
      fix g' assume "g' \<in> set (map fst (cluster w thr rest (P \<union> set ?g)))"
      then obtain d' where "(g', d') \<in> set (cluster w thr rest (P \<union> set ?g))"
        by auto
      from cluster_avoids [OF this] show "set ?g \<inter> set g' = {}"
        by blast
    qed
    with Cons.IH [of "P \<union> set ?g"] eq show ?thesis
      by simp
  qed
qed

lemma cluster_groups:
  assumes "distinct (map fst items)" and "(grp, d) \<in> set (cluster w thr items P)"
  shows "\<exists>seed hs added. grp = seed # map fst added \<and> added \<noteq> [] \<and> (seed, hs) \<in> set items \<and>
           set added \<subseteq> set items \<and>
           (\<forall>(m, hm) \<in> set added. int (hamming_distance w hs hm) \<le> thr) \<and>
           d = Min ((\<lambda>(m, hm). hamming_distance w hs hm) ` set added) \<and> distinct grp"
  using assms
proof (induction items arbitrary: P)
  case Nil
  then show ?case by simp
next
  case (Cons item rest)
  obtain f1 h1 where item: "item = (f1, h1)" by (cases item)
  let ?added = "near w thr h1 P rest"
  let ?g = "f1 # map fst ?added"
  from Cons.prems(1) item have dr: "distinct (map fst rest)" and f1: "f1 \<notin> fst ` set rest"
    by auto
  have from_rest: "?case" if "(grp, d) \<in> set (cluster w thr rest P')" for P'
  proof -
    from Cons.IH [OF dr that] obtain seed hs added where
      "grp = seed # map fst added \<and> added \<noteq> [] \<and> (seed, hs) \<in> set rest \<and>
       set added \<subseteq> set rest \<and>
       (\<forall>(m, hm) \<in> set added. int (hamming_distance w hs hm) \<le> thr) \<and>
       d = Min ((\<lambda>(m, hm). hamming_distance w hs hm) ` set added) \<and> distinct grp"
      by blast
    then show ?thesis
      by (rule_tac x = seed in exI, rule_tac x = hs in exI, rule_tac x = added in exI) auto
  qed
  show ?case
  proof (cases "f1 \<notin> P \<and> ?added \<noteq> []")
    case False
    then have "cluster w thr (item # rest) P = cluster w thr rest P"
      using item by (auto simp: scan_rest_eq)
    with Cons.prems(2) from_rest show ?thesis by simp
  next
    case True
    let ?ds = "map (\<lambda>(f, h). hamming_distance w h1 h) ?added"
    from True have ds_ne: "?ds \<noteq> []" by simp
    from True item
    have eq: "cluster w thr (item # rest) P =
        (?g, Min (set ?ds)) # cluster w thr rest (P \<union> set ?g)"
      by (simp add: scan_rest_eq fold_min_step_None [OF ds_ne])
    with Cons.prems(2)
    have "(grp = ?g \<and> d = Min (set ?ds)) \<or> (grp, d) \<in> set (cluster w thr rest (P \<union> set ?g))"
      by auto
    then show ?thesis
    proof
      assume "(grp, d) \<in> set (cluster w thr rest (P \<union> set ?g))"
      then show ?thesis by (rule from_rest)
    next
      assume head: "grp = ?g \<and> d = Min (set ?ds)"
      have sub: "set ?added \<subseteq> set rest"
        by (auto simp: near_def)
      have "distinct (map fst ?added)"
        unfolding near_def using dr by (rule distinct_map_filter)
      moreover have "f1 \<notin> set (map fst ?added)"
        using f1 sub by auto
      ultimately have "distinct ?g" by simp
      moreover have "\<forall>(m, hm) \<in> set ?added. int (hamming_distance w h1 hm) \<le> thr"
        by (auto simp: near_def)
      moreover have "set ?ds = (\<lambda>(m, hm). hamming_distance w h1 hm) ` set ?added"
        by simp
      ultimately show ?thesis
        using head True sub item
        by (rule_tac x = f1 in exI, rule_tac x = h1 in exI, rule_tac x = "?added" in exI) auto
    qed
  qed
qed

lemma keys_dict_set:
  "map fst (dict_set k v items) =
     (if k \<in> fst ` set items then map fst items else map fst items @ [k])"
  by (induction items) (force split: if_splits)+

lemma set_dict_set: "set (dict_set k v items) \<subseteq> insert (k, v) (set items)"
  by (induction items) (auto split: if_splits)

lemma dict_set_ok:
  assumes "items_ok pv items" and "pv k = Some v" and "v \<noteq> []"
  shows "items_ok pv (dict_set k v items)"
proof -
  have "distinct (map fst (dict_set k v items))"
    using assms(1) by (auto simp: keys_dict_set items_ok_def)
  moreover have "\<forall>(p, h) \<in> set (dict_set k v items). pv p = Some h \<and> h \<noteq> []"
    using set_dict_set [of k v items] assms by (fastforce simp: items_ok_def)
  ultimately show ?thesis
    by (simp add: items_ok_def)
qed

lemma fingerprint_files_ok:
  "items_ok pv items \<Longrightarrow> items_ok pv (fingerprint_files pv files items)"
  by (induction files arbitrary: items) (auto split: option.splits intro: dict_set_ok)

lemma fingerprint_files_keys:
  "fst ` set (fingerprint_files pv files items) \<subseteq> fst ` set items \<union> set files"
proof (induction files arbitrary: items)
  case Nil
  then show ?case by simp
next
  case (Cons p ps)
  have step: "fst ` set (dict_set p h items) \<subseteq> insert p (fst ` set items)" for h
    using set_dict_set [of p h items] by force
  show ?case
  proof (cases "pv p")
    case None
    with Cons.IH [of items] show ?thesis by auto
  next
    case (Some h)
    show ?thesis
    proof (cases "h = []")
      case True
      with Some Cons.IH [of items] show ?thesis by auto
    next
      case False
      with Some have "fingerprint_files pv (p # ps) items =
          fingerprint_files pv ps (dict_set p h items)"
        by simp
      with Cons.IH [of "dict_set p h items"] step [of h] show ?thesis
        by auto
    qed
  qed
qed

lemma perceptual_groups_props:
  assumes "(grp, d) \<in> set (perceptual_groups w pv thr files)"
  shows "set grp \<subseteq> {p \<in> set files. is_supported_image w p \<and> pv p \<noteq> None}"
    and "distinct grp"
    and "\<exists>seed added. grp = seed # added \<and> added \<noteq> [] \<and>
           (\<forall>m \<in> set added. int (fingerprint_distance w pv seed m) \<le> thr) \<and>
           d = Min (fingerprint_distance w pv seed ` set added)"
proof -
  let ?items = "fingerprint_files pv (filter (is_supported_image w) files) []"
  have ok: "items_ok pv ?items"
    by (rule fingerprint_files_ok) (simp add: items_ok_def)
  then have dist: "distinct (map fst ?items)" and
    fp: "\<And>p h. (p, h) \<in> set ?items \<Longrightarrow> pv p = Some h"
    by (auto simp: items_ok_def)
  from assms have in_cl: "(grp, d) \<in> set (cluster w thr ?items {})"
    by (simp add: perceptual_groups_def)
  from cluster_avoids [OF in_cl] have "set grp \<subseteq> fst ` set ?items"
    by simp
  moreover have "fst ` set ?items \<subseteq> set (filter (is_supported_image w) files)"
    using fingerprint_files_keys [of pv "filter (is_supported_image w) files" "[]"] by simp
  moreover have "\<forall>p \<in> fst ` set ?items. pv p \<noteq> None"
    using fp by force
  ultimately show "set grp \<subseteq> {p \<in> set files. is_supported_image w p \<and> pv p \<noteq> None}"
    by auto
  from cluster_groups [OF dist in_cl] obtain seed hs added where
    grp: "grp = seed # map fst added" and ne: "added \<noteq> []" and
    seed: "(seed, hs) \<in> set ?items" and sub: "set added \<subseteq> set ?items" and
    near: "\<forall>(m, hm) \<in> set added. int (hamming_distance w hs hm) \<le> thr" and
    d: "d = Min ((\<lambda>(m, hm). hamming_distance w hs hm) ` set added)" and
    dg: "distinct grp"
    by blast
  show "distinct grp" by (rule dg)
  have fd: "fingerprint_distance w pv seed m = hamming_distance w hs hm"
    if "(m, hm) \<in> set added" for m hm
    using fp [OF seed] fp [of m hm] sub that by (auto simp: fingerprint_distance_def)
  have "fingerprint_distance w pv seed ` set (map fst added) =
      (\<lambda>x. fingerprint_distance w pv seed (fst x)) ` set added"
    by (simp add: image_image)
  also have "\<dots> = (\<lambda>(m, hm). hamming_distance w hs hm) ` set added"
    by (rule image_cong) (auto simp: fd)
  finally have img: "fingerprint_distance w pv seed ` set (map fst added) =
      (\<lambda>(m, hm). hamming_distance w hs hm) ` set added" .
  have "\<forall>m \<in> set (map fst added). int (fingerprint_distance w pv seed m) \<le> thr"
  proof
    fix m assume "m \<in> set (map fst added)"
    then obtain hm where mh: "(m, hm) \<in> set added" by auto
    with near have "int (hamming_distance w hs hm) \<le> thr" by auto
    with fd [OF mh] show "int (fingerprint_distance w pv seed m) \<le> thr" by simp
  qed
  with grp ne d img
  show "\<exists>seed added. grp = seed # added \<and> added \<noteq> [] \<and>
           (\<forall>m \<in> set added. int (fingerprint_distance w pv seed m) \<le> thr) \<and>
           d = Min (fingerprint_distance w pv seed ` set added)"
    by (rule_tac x = seed in exI, rule_tac x = "map fst added" in exI) simp
qed

lemma perceptual_groups_disjoint:
  "sorted_wrt (\<lambda>a b. set a \<inter> set b = {}) (map fst (perceptual_groups w pv thr files))"
  unfolding perceptual_groups_def by (rule cluster_disjoint)

section \<open>Facts about a whole run\<close>

lemmas engine_eval =
  create_duplicate_groups_def exact_pass_def perceptual_pass_def find_exact_duplicates_def
  find_perceptual_duplicates_def get_sha256_def get_phash_def get_file_metadata_def
  select_winner_def collect_meta_def get_image_dimensions_def sort_key_meta_def
  str_opt_def str_nat.simps digit_char_def is_supported_image_def supported_extensions_def
  hamming_distance_def hash_sub_def differing_bits_def processed_files_of_def
  new_Deduplicator_def new_HashCalculator_def table_eval less_eq_prod_def less_prod_def Let_def

lemma plan_groups_entry:
  assumes "plan_groups w sv dtype plan gid = (r, gs)" and "g \<in> set gs"
  shows "\<exists>entry gid'. entry \<in> set plan \<and> make_group w sv dtype gid' entry = Inr g"
proof -
  note pp = plan_groups_props [OF assms(1)]
  from assms(2) obtain i where i: "i < length gs" and g: "gs ! i = g"
    by (auto simp: in_set_conv_nth)
  with pp have "make_group w sv dtype (gid + i) (plan ! i) = Inr g" and "i < length plan"
    by auto
  then show ?thesis
    using nth_mem by blast
qed

lemma plan_groups_disjoint:
  assumes "sorted_wrt (\<lambda>a b. set a \<inter> set b = {}) (map fst plan)"
    and "plan_groups w sv dtype plan gid = (r, gs)"
  shows "sorted_wrt (\<lambda>a b. group_files a \<inter> group_files b = {}) gs"
proof -
  from assms(1) have "sorted_wrt (\<lambda>a b. set (fst a) \<inter> set (fst b) = {}) plan"
    by (simp add: sorted_wrt_map)
  then have "sorted_wrt (\<lambda>a b. set (fst a) \<inter> set (fst b) = {}) (take (length gs) plan)"
    by (rule sorted_wrt_take)
  then have "sorted_wrt (\<lambda>a b. a \<inter> b = {}) (map (\<lambda>e. set (fst e)) (take (length gs) plan))"
    by (simp add: sorted_wrt_map)
  then have "sorted_wrt (\<lambda>a b. a \<inter> b = {}) (map group_files gs)"
    by (simp only: plan_groups_files(1) [OF assms(2)])
  then show ?thesis
    by (simp add: sorted_wrt_map)
qed

lemma map_fst_with_distance: "map fst (map (\<lambda>(g, dist). (g, Some dist)) xs) = map fst xs"
  by (induction xs) auto

lemma exact_plan_props:
  assumes "exact_plan w sv md files = (r, gs)"
  shows "sorted_wrt (\<lambda>a b. group_files a \<inter> group_files b = {}) gs"
    and "\<forall>g \<in> set gs. group_files g \<subseteq> set files \<and> winner g \<notin> set (duplicates g) \<and>
           detection_type g = ''exact'' \<and> phash_distance g = None \<and>
           (distinct files \<longrightarrow> distinct (duplicates g))"
    and "map group_id gs = [0 ..< length gs]"
    and "\<forall>n. r = Inr n \<longrightarrow> n = length gs"
proof -
  let ?plan = "map (\<lambda>g. (g, None :: nat option)) (exact_groups sv files)"
  have all: "sorted_wrt (\<lambda>a b. group_files a \<inter> group_files b = {}) gs \<and>
      (\<forall>g \<in> set gs. group_files g \<subseteq> set files \<and> winner g \<notin> set (duplicates g) \<and>
           detection_type g = ''exact'' \<and> phash_distance g = None \<and>
           (distinct files \<longrightarrow> distinct (duplicates g))) \<and>
      map group_id gs = [0 ..< length gs] \<and> (\<forall>n. r = Inr n \<longrightarrow> n = length gs)"
  proof (cases "md \<in> set [''exact'', ''exact+perceptual'']")
    case False
    with assms show ?thesis
      by (auto simp: exact_plan_def)
  next
    case True
    with assms have pg: "plan_groups w sv ''exact'' ?plan 0 = (r, gs)"
      by (simp add: exact_plan_def)
    have "map fst ?plan = exact_groups sv files"
      by (simp add: comp_def)
    then have "sorted_wrt (\<lambda>a b. set a \<inter> set b = {}) (map fst ?plan)"
      using exact_groups_disjoint [of sv files] by simp
    from plan_groups_disjoint [OF this pg]
    have d: "sorted_wrt (\<lambda>a b. group_files a \<inter> group_files b = {}) gs" .
    have each: "group_files g \<subseteq> set files \<and> winner g \<notin> set (duplicates g) \<and>
           detection_type g = ''exact'' \<and> phash_distance g = None \<and>
           (distinct files \<longrightarrow> distinct (duplicates g))" if "g \<in> set gs" for g
    proof -
      from plan_groups_entry [OF pg that] obtain entry gid' where
        e: "entry \<in> set ?plan" and mg: "make_group w sv ''exact'' gid' entry = Inr g"
        by blast
      from e obtain grp where grp: "grp \<in> set (exact_groups sv files)" and entry: "entry = (grp, None)"
        by auto
      note m = exact_groups_members [OF grp]
      note p = make_group_props [OF mg]
      have "group_files g \<subseteq> set files"
        using p(7) m(1) entry by auto
      moreover have "distinct files \<longrightarrow> distinct (duplicates g)"
        using p(4) m(3) entry by simp
      moreover have "winner g \<notin> set (duplicates g)"
        using plan_groups_files(3) [OF pg] that by blast
      ultimately show ?thesis
        using p(2,5) entry by simp
    qed
    from plan_groups_props [OF pg] have n: "\<forall>n. r = Inr n \<longrightarrow> n = length gs"
      by (auto split: sum.splits)
    from plan_groups_files(2) [OF pg] d each n show ?thesis
      by simp
  qed
  from all show "sorted_wrt (\<lambda>a b. group_files a \<inter> group_files b = {}) gs"
    and "\<forall>g \<in> set gs. group_files g \<subseteq> set files \<and> winner g \<notin> set (duplicates g) \<and>
           detection_type g = ''exact'' \<and> phash_distance g = None \<and>
           (distinct files \<longrightarrow> distinct (duplicates g))"
    and "map group_id gs = [0 ..< length gs]"
    and "\<forall>n. r = Inr n \<longrightarrow> n = length gs"
    by blast+
qed

lemma perceptual_plan_props:
  assumes "perceptual_plan w sv pv md thr gid gs1 files = (r, gs)"
  shows "sorted_wrt (\<lambda>a b. group_files a \<inter> group_files b = {}) gs"
    and "\<forall>g \<in> set gs. group_files g \<subseteq> set files - processed_files_of gs1 \<and>
           winner g \<notin> set (duplicates g) \<and> detection_type g = ''perceptual'' \<and>
           distinct (duplicates g) \<and>
           (\<exists>seed added. group_files g = set (seed # added) \<and> distinct (seed # added) \<and>
              added \<noteq> [] \<and>
              (\<forall>m \<in> set added. int (fingerprint_distance w pv seed m) \<le> thr) \<and>
              phash_distance g = Some (Min (fingerprint_distance w pv seed ` set added)))"
    and "map group_id gs = [gid ..< gid + length gs]"
proof -
  let ?rem = "filter (\<lambda>f. f \<notin> processed_files_of gs1) files"
  let ?pgs = "perceptual_groups w pv thr ?rem"
  let ?plan = "map (\<lambda>(g, dist). (g, Some dist)) ?pgs"
  have all: "sorted_wrt (\<lambda>a b. group_files a \<inter> group_files b = {}) gs \<and>
      (\<forall>g \<in> set gs. group_files g \<subseteq> set files - processed_files_of gs1 \<and>
           winner g \<notin> set (duplicates g) \<and> detection_type g = ''perceptual'' \<and>
           distinct (duplicates g) \<and>
           (\<exists>seed added. group_files g = set (seed # added) \<and> distinct (seed # added) \<and>
              added \<noteq> [] \<and>
              (\<forall>m \<in> set added. int (fingerprint_distance w pv seed m) \<le> thr) \<and>
              phash_distance g = Some (Min (fingerprint_distance w pv seed ` set added)))) \<and>
      map group_id gs = [gid ..< gid + length gs]"
  proof (cases "md \<in> set [''perceptual'', ''exact+perceptual'']")
    case False
    with assms show ?thesis
      by (auto simp: perceptual_plan_def)
  next
    case True
    with assms have pg: "plan_groups w sv ''perceptual'' ?plan gid = (r, gs)"
      by (simp add: perceptual_plan_def)
    have "sorted_wrt (\<lambda>a b. set a \<inter> set b = {}) (map fst ?plan)"
      using perceptual_groups_disjoint [of w pv thr ?rem]
      by (simp only: map_fst_with_distance)
    from plan_groups_disjoint [OF this pg]
    have d: "sorted_wrt (\<lambda>a b. group_files a \<inter> group_files b = {}) gs" .
    have each: "group_files g \<subseteq> set files - processed_files_of gs1 \<and>
           winner g \<notin> set (duplicates g) \<and> detection_type g = ''perceptual'' \<and>
           distinct (duplicates g) \<and>
           (\<exists>seed added. group_files g = set (seed # added) \<and> distinct (seed # added) \<and>
              added \<noteq> [] \<and>
              (\<forall>m \<in> set added. int (fingerprint_distance w pv seed m) \<le> thr) \<and>
              phash_distance g = Some (Min (fingerprint_distance w pv seed ` set added)))"
      if "g \<in> set gs" for g
    proof -
      from plan_groups_entry [OF pg that] obtain entry gid' where
        e: "entry \<in> set ?plan" and mg: "make_group w sv ''perceptual'' gid' entry = Inr g"
        by blast
      from e obtain grp dist where grp: "(grp, dist) \<in> set ?pgs" and
        entry: "entry = (grp, Some dist)"
        by auto
      note m = perceptual_groups_props [OF grp]
      note p = make_group_props [OF mg]
      from m(3) obtain seed added where
        sa: "grp = seed # added" "added \<noteq> []"
          "\<forall>m \<in> set added. int (fingerprint_distance w pv seed m) \<le> thr"
          "dist = Min (fingerprint_distance w pv seed ` set added)"
        by blast
      have "group_files g \<subseteq> set files - processed_files_of gs1"
        using p(7) m(1) entry by auto
      moreover have "distinct (duplicates g)"
        using p(4) m(2) entry by simp
      moreover have "winner g \<notin> set (duplicates g)"
        using plan_groups_files(3) [OF pg] that by blast
      moreover have "group_files g = set (seed # added)" and "distinct (seed # added)"
        and "phash_distance g = Some (Min (fingerprint_distance w pv seed ` set added))"
        using p(5,7) m(2) entry sa by simp_all
      ultimately show ?thesis
        using p(2) sa(2,3) by blast
    qed
    from plan_groups_files(2) [OF pg] d each show ?thesis
      by simp
  qed
  from all show "sorted_wrt (\<lambda>a b. group_files a \<inter> group_files b = {}) gs"
    and "\<forall>g \<in> set gs. group_files g \<subseteq> set files - processed_files_of gs1 \<and>
           winner g \<notin> set (duplicates g) \<and> detection_type g = ''perceptual'' \<and>
           distinct (duplicates g) \<and>
           (\<exists>seed added. group_files g = set (seed # added) \<and> distinct (seed # added) \<and>
              added \<noteq> [] \<and>
              (\<forall>m \<in> set added. int (fingerprint_distance w pv seed m) \<le> thr) \<and>
              phash_distance g = Some (Min (fingerprint_distance w pv seed ` set added)))"
    and "map group_id gs = [gid ..< gid + length gs]"
    by blast+
qed

lemma processed_files_of_group_files: "processed_files_of gs = (\<Union>g \<in> set gs. group_files g)"
  by (simp add: processed_files_of_def group_files_def)

lemma run_groups_props:
  assumes "run_groups w sv pv md thr files = (r, gs)"
  shows "sorted_wrt (\<lambda>a b. group_files a \<inter> group_files b = {}) gs"
    and "\<forall>g \<in> set gs. group_files g \<subseteq> set files \<and> winner g \<notin> set (duplicates g) \<and>
           (distinct files \<longrightarrow> distinct (duplicates g))"
    and "map group_id gs = [0 ..< length gs]"
    and "\<forall>g \<in> set gs.
           (detection_type g = ''exact'' \<and> phash_distance g = None) \<or>
           (detection_type g = ''perceptual'' \<and>
            (\<exists>seed added. group_files g = set (seed # added) \<and> distinct (seed # added) \<and>
               added \<noteq> [] \<and>
               (\<forall>m \<in> set added. int (fingerprint_distance w pv seed m) \<le> thr) \<and>
               phash_distance g = Some (Min (fingerprint_distance w pv seed ` set added))))"
proof -
  obtain r1 gs1 where p1: "exact_plan w sv md files = (r1, gs1)"
    by (cases "exact_plan w sv md files")
  note e = exact_plan_props [OF p1]
  have all: "sorted_wrt (\<lambda>a b. group_files a \<inter> group_files b = {}) gs \<and>
      (\<forall>g \<in> set gs. group_files g \<subseteq> set files \<and> winner g \<notin> set (duplicates g) \<and>
           (distinct files \<longrightarrow> distinct (duplicates g))) \<and>
      map group_id gs = [0 ..< length gs] \<and>
      (\<forall>g \<in> set gs.
           (detection_type g = ''exact'' \<and> phash_distance g = None) \<or>
           (detection_type g = ''perceptual'' \<and>
            (\<exists>seed added. group_files g = set (seed # added) \<and> distinct (seed # added) \<and>
               added \<noteq> [] \<and>
               (\<forall>m \<in> set added. int (fingerprint_distance w pv seed m) \<le> thr) \<and>
               phash_distance g = Some (Min (fingerprint_distance w pv seed ` set added)))))"
  proof (cases r1)
    case (Inl err)
    with assms p1 have "gs = gs1"
      by (simp add: run_groups_def)
    with e show ?thesis
      by blast
  next
    case (Inr gid)
    obtain r2 gs2 where p2: "perceptual_plan w sv pv md thr gid gs1 files = (r2, gs2)"
      by (cases "perceptual_plan w sv pv md thr gid gs1 files")
    note q = perceptual_plan_props [OF p2]
    from assms p1 p2 Inr have gs: "gs = gs1 @ gs2"
      by (auto simp: run_groups_def split: sum.splits)
    from e(4) Inr have gid: "gid = length gs1"
      by simp
    have cross: "\<forall>a \<in> set gs1. \<forall>b \<in> set gs2. group_files a \<inter> group_files b = {}"
    proof (intro ballI)
      fix a b assume a: "a \<in> set gs1" and b: "b \<in> set gs2"
      from a have "group_files a \<subseteq> processed_files_of gs1"
        by (auto simp: processed_files_of_group_files)
      moreover from q(2) b have "group_files b \<subseteq> set files - processed_files_of gs1"
        by blast
      ultimately show "group_files a \<inter> group_files b = {}"
        by blast
    qed
    have "sorted_wrt (\<lambda>a b. group_files a \<inter> group_files b = {}) gs"
      using e(1) q(1) cross gs by (simp add: sorted_wrt_append)
    moreover have "\<forall>g \<in> set gs. group_files g \<subseteq> set files \<and> winner g \<notin> set (duplicates g) \<and>
           (distinct files \<longrightarrow> distinct (duplicates g))"
    proof
      fix g assume "g \<in> set gs"
      with gs have "g \<in> set gs1 \<or> g \<in> set gs2" by simp
      then show "group_files g \<subseteq> set files \<and> winner g \<notin> set (duplicates g) \<and>
           (distinct files \<longrightarrow> distinct (duplicates g))"
      proof
        assume "g \<in> set gs1"
        with e(2) show ?thesis by blast
      next
        assume "g \<in> set gs2"
        with q(2) show ?thesis by blast
      qed
    qed
    moreover have "map group_id gs = [0 ..< length gs]"
    proof -
      have "map group_id gs = [0 ..< length gs1] @ [length gs1 ..< length gs1 + length gs2]"
        using e(3) q(3) gs gid by simp
      also have "\<dots> = [0 ..< length gs1 + length gs2]"
        by (metis le_add1 upt_add_eq_append zero_le)
      finally show ?thesis
        using gs by simp
    qed
    moreover have "\<forall>g \<in> set gs.
           (detection_type g = ''exact'' \<and> phash_distance g = None) \<or>
           (detection_type g = ''perceptual'' \<and>
            (\<exists>seed added. group_files g = set (seed # added) \<and> distinct (seed # added) \<and>
               added \<noteq> [] \<and>
               (\<forall>m \<in> set added. int (fingerprint_distance w pv seed m) \<le> thr) \<and>
               phash_distance g = Some (Min (fingerprint_distance w pv seed ` set added))))"
    proof
      fix g assume "g \<in> set gs"
      with gs have "g \<in> set gs1 \<or> g \<in> set gs2" by simp
      then show "(detection_type g = ''exact'' \<and> phash_distance g = None) \<or>
           (detection_type g = ''perceptual'' \<and>
            (\<exists>seed added. group_files g = set (seed # added) \<and> distinct (seed # added) \<and>
               added \<noteq> [] \<and>
               (\<forall>m \<in> set added. int (fingerprint_distance w pv seed m) \<le> thr) \<and>
               phash_distance g = Some (Min (fingerprint_distance w pv seed ` set added))))"
      proof
        assume "g \<in> set gs1"
        with e(2) show ?thesis by blast
      next
        assume "g \<in> set gs2"
        with q(2) show ?thesis by blast
      qed
    qed
    ultimately show ?thesis
      by blast
  qed
  from all show "sorted_wrt (\<lambda>a b. group_files a \<inter> group_files b = {}) gs"
    and "\<forall>g \<in> set gs. group_files g \<subseteq> set files \<and> winner g \<notin> set (duplicates g) \<and>
           (distinct files \<longrightarrow> distinct (duplicates g))"
    and "map group_id gs = [0 ..< length gs]"
    and "\<forall>g \<in> set gs.
           (detection_type g = ''exact'' \<and> phash_distance g = None) \<or>
           (detection_type g = ''perceptual'' \<and>
            (\<exists>seed added. group_files g = set (seed # added) \<and> distinct (seed # added) \<and>
               added \<noteq> [] \<and>
               (\<forall>m \<in> set added. int (fingerprint_distance w pv seed m) \<le> thr) \<and>
               phash_distance g = Some (Min (fingerprint_distance w pv seed ` set added))))"
    by blast+
qed

lemma engine_run_groups:
  "run_groups w (sha_view w (hash_calc d)) (phash_view w (hash_calc d)) (mode d)
     (phash_threshold d) files =
   (fst (create_duplicate_groups w d files),
    duplicate_groups (snd (create_duplicate_groups w d files)))"
  using create_duplicate_groups_pure(1) [of w d files] by (metis prod.collapse)

lemmas engine_groups = run_groups_props [OF engine_run_groups]

lemma disjoint_or_same:
  assumes "sorted_wrt (\<lambda>a b. group_files a \<inter> group_files b = {}) gs"
    and "a \<in> set gs" and "b \<in> set gs"
  shows "a = b \<or> group_files a \<inter> group_files b = {}"
proof -
  from assms(2,3) obtain i j where i: "i < length gs" "gs ! i = a" and j: "j < length gs" "gs ! j = b"
    by (auto simp: in_set_conv_nth)
  consider "i < j" | "j < i" | "i = j" by linarith
  then show ?thesis
  proof cases
    case 1
    with assms(1) i j show ?thesis
      by (auto simp: sorted_wrt_iff_nth_less)
  next
    case 2
    with assms(1) i j have "group_files b \<inter> group_files a = {}"
      by (auto simp: sorted_wrt_iff_nth_less)
    then show ?thesis by blast
  next
    case 3
    with i j show ?thesis by simp
  qed
qed

lemma album_groups:
  "map (\<lambda>g. (group_id g, detection_type g, winner g, duplicates g, reason g, phash_distance g))
     (duplicate_groups (after_run album album_engine album_files)) =
   [(0, ''exact'', ''b.jpg'', [''a.jpg''], ''highest resolution (200x200)'', None),
    (1, ''perceptual'', ''d.png'', [''c.jpg''], ''largest file size (900 bytes)'', Some 3)]"
  by (simp add: album_def album_files_def album_engine_def engine_eval)

lemma album_views:
  "get_all_winners (after_run album album_engine album_files) = [''b.jpg'', ''d.png'']"
  "get_all_duplicates (after_run album album_engine album_files) = [''a.jpg'', ''c.jpg'']"
  "get_unique_files (after_run album album_engine album_files) album_files = [''e.mp4'']"
proof -
  let ?gs = "duplicate_groups (after_run album album_engine album_files)"
  have w: "map winner ?gs = [''b.jpg'', ''d.png'']"
    using arg_cong [OF album_groups, of "map (\<lambda>t. fst (snd (snd t)))"]
    by (simp add: comp_def)
  have d: "map duplicates ?gs = [[''a.jpg''], [''c.jpg'']]"
    using arg_cong [OF album_groups, of "map (\<lambda>t. fst (snd (snd (snd t))))"]
    by (simp add: comp_def)
  show "get_all_winners (after_run album album_engine album_files) = [''b.jpg'', ''d.png'']"
    using w by (simp add: get_all_winners_def)
  show "get_all_duplicates (after_run album album_engine album_files) = [''a.jpg'', ''c.jpg'']"
    using d by (simp add: get_all_duplicates_def)
  show "get_unique_files (after_run album album_engine album_files) album_files = [''e.mp4'']"
    using w d by (simp add: get_unique_files_def get_all_winners_def get_all_duplicates_def
        album_files_def)
qed

text \<open>
  C1. After a run, the winners, the duplicates and the unique files are pairwise disjoint
  and together are the input files: every input file is in exactly one of the three views.
\<close>

theorem views_partition:
  "set (get_all_winners (after_run w d files)) \<inter>
     set (get_all_duplicates (after_run w d files)) = {} \<and>
   set (get_all_winners (after_run w d files)) \<inter>
     set (get_unique_files (after_run w d files) files) = {} \<and>
   set (get_all_duplicates (after_run w d files)) \<inter>
     set (get_unique_files (after_run w d files) files) = {} \<and>
   set files =
     set (get_all_winners (after_run w d files)) \<union>
     set (get_all_duplicates (after_run w d files)) \<union>
     set (get_unique_files (after_run w d files) files)"
proof -
  let ?gs = "duplicate_groups (after_run w d files)"
  let ?W = "set (get_all_winners (after_run w d files))"
  let ?D = "set (get_all_duplicates (after_run w d files))"
  let ?U = "set (get_unique_files (after_run w d files) files)"
  note g = engine_groups [of w d files]
  have W: "?W = winner ` set ?gs" and D: "?D = (\<Union>g \<in> set ?gs. set (duplicates g))"
    by (simp_all add: get_all_winners_def get_all_duplicates_def)
  have U: "?U = set files - (?W \<union> ?D)"
    by (auto simp: get_unique_files_def)
  have "?W \<inter> ?D = {}"
  proof (rule ccontr)
    assume "?W \<inter> ?D \<noteq> {}"
    then obtain a b where a: "a \<in> set ?gs" and b: "b \<in> set ?gs" and
      mem: "winner a \<in> set (duplicates b)"
      unfolding W D by blast
    from disjoint_or_same [OF g(1) a b] show False
    proof
      assume "a = b"
      with mem g(2) b show False by blast
    next
      assume "group_files a \<inter> group_files b = {}"
      with mem show False by (auto simp: group_files_def)
    qed
  qed
  moreover have "?W \<union> ?D \<subseteq> set files"
    using g(2) unfolding W D by (fastforce simp: group_files_def)
  ultimately show ?thesis
    using U by blast
qed

theorem views_partition_witness:
  "get_all_winners (after_run album album_engine album_files) = [''b.jpg'', ''d.png''] \<and>
   get_all_duplicates (after_run album album_engine album_files) = [''a.jpg'', ''c.jpg''] \<and>
   get_unique_files (after_run album album_engine album_files) album_files = [''e.mp4''] \<and>
   set album_files =
     set (get_all_winners (after_run album album_engine album_files)) \<union>
     set (get_all_duplicates (after_run album album_engine album_files)) \<union>
     set (get_unique_files (after_run album album_engine album_files) album_files)"
  using views_partition [of album album_engine album_files] album_views by blast

section \<open>Facts about the groups of a run\<close>

text \<open>
  C5. No file is in two groups of a run: the files of two groups at different places of the
  list are disjoint sets, whatever the mode; in particular no perceptual group holds a file
  of an exact group.
\<close>

theorem groups_pairwise_disjoint:
  "(\<forall>i j. i < j \<and> j < length (duplicate_groups (after_run w d files)) \<longrightarrow>
      group_files (duplicate_groups (after_run w d files) ! i) \<inter>
      group_files (duplicate_groups (after_run w d files) ! j) = {}) \<and>
   (\<forall>a \<in> set (duplicate_groups (after_run w d files)).
    \<forall>b \<in> set (duplicate_groups (after_run w d files)).
      detection_type a = ''exact'' \<and> detection_type b = ''perceptual'' \<longrightarrow>
      group_files a \<inter> group_files b = {})"
proof (intro conjI allI impI ballI)
  fix i j
  assume "i < j \<and> j < length (duplicate_groups (after_run w d files))"
  with engine_groups(1) [of w d files]
  show "group_files (duplicate_groups (after_run w d files) ! i) \<inter>
      group_files (duplicate_groups (after_run w d files) ! j) = {}"
    by (simp add: sorted_wrt_iff_nth_less)
next
  fix a b
  assume a: "a \<in> set (duplicate_groups (after_run w d files))"
    and b: "b \<in> set (duplicate_groups (after_run w d files))"
    and t: "detection_type a = ''exact'' \<and> detection_type b = ''perceptual''"
  then have "a \<noteq> b" by auto
  with disjoint_or_same [OF engine_groups(1) a b]
  show "group_files a \<inter> group_files b = {}"
    by simp
qed

lemma album_two_groups:
  "length (duplicate_groups (after_run album album_engine album_files)) = 2"
  "group_files (duplicate_groups (after_run album album_engine album_files) ! 0) =
     {''a.jpg'', ''b.jpg''}"
  "group_files (duplicate_groups (after_run album album_engine album_files) ! 1) =
     {''c.jpg'', ''d.png''}"
  "detection_type (duplicate_groups (after_run album album_engine album_files) ! 1) =
     ''perceptual''"
  "phash_distance (duplicate_groups (after_run album album_engine album_files) ! 1) = Some 3"
proof -
  let ?gs = "duplicate_groups (after_run album album_engine album_files)"
  let ?t = "\<lambda>g. (group_id g, detection_type g, winner g, duplicates g, reason g, phash_distance g)"
  from album_groups have len: "length (map ?t ?gs) = 2"
    by simp
  then show l: "length ?gs = 2" by simp
  from album_groups have
    "map ?t ?gs ! 0 = (0, ''exact'', ''b.jpg'', [''a.jpg''], ''highest resolution (200x200)'', None)"
    "map ?t ?gs ! 1 =
       (1, ''perceptual'', ''d.png'', [''c.jpg''], ''largest file size (900 bytes)'', Some 3)"
    by simp_all
  with l have
    g0: "?t (?gs ! 0) =
       (0, ''exact'', ''b.jpg'', [''a.jpg''], ''highest resolution (200x200)'', None)" and
    g1: "?t (?gs ! 1) =
       (1, ''perceptual'', ''d.png'', [''c.jpg''], ''largest file size (900 bytes)'', Some 3)"
    by simp_all
  from g0 show "group_files (?gs ! 0) = {''a.jpg'', ''b.jpg''}"
    by (auto simp: group_files_def)
  from g1 show "group_files (?gs ! 1) = {''c.jpg'', ''d.png''}"
    by (auto simp: group_files_def)
  from g1 show "detection_type (?gs ! 1) = ''perceptual''"
    and "phash_distance (?gs ! 1) = Some 3"
    by simp_all
qed

theorem groups_pairwise_disjoint_witness:
  "(0::nat) < 1 \<and> 1 < length (duplicate_groups (after_run album album_engine album_files)) \<and>
   group_files (duplicate_groups (after_run album album_engine album_files) ! 0) =
     {''a.jpg'', ''b.jpg''} \<and>
   group_files (duplicate_groups (after_run album album_engine album_files) ! 1) =
     {''c.jpg'', ''d.png''} \<and>
   group_files (duplicate_groups (after_run album album_engine album_files) ! 0) \<inter>
   group_files (duplicate_groups (after_run album album_engine album_files) ! 1) = {}"
proof -
  have h: "(0::nat) < 1 \<and> 1 < length (duplicate_groups (after_run album album_engine album_files))"
    using album_two_groups(1) by simp
  with groups_pairwise_disjoint [of album album_engine album_files]
  have "group_files (duplicate_groups (after_run album album_engine album_files) ! 0) \<inter>
      group_files (duplicate_groups (after_run album album_engine album_files) ! 1) = {}"
    by blast
  with h album_two_groups(2,3) show ?thesis
    by blast
qed







text \<open>
  C10. With a mode string other than the three known ones, neither block runs: the result is
  the empty list, the caches are untouched, and every input file is reported unique.
\<close>

theorem unknown_mode_no_groups:
  assumes "mode d \<notin> set [''exact'', ''perceptual'', ''exact+perceptual'']"
  shows "create_duplicate_groups w d files = (Inr [], d\<lparr>duplicate_groups := []\<rparr>) \<and>
         get_unique_files (after_run w d files) files = files"
proof -
  from assms have "create_duplicate_groups w d files = (Inr [], d\<lparr>duplicate_groups := []\<rparr>)"
    by (simp add: create_duplicate_groups_def exact_pass_def perceptual_pass_def)
  then show ?thesis
    by (simp add: get_unique_files_def get_all_winners_def get_all_duplicates_def)
qed

theorem unknown_mode_no_groups_witness:
  "mode fuzzy_engine \<notin> set [''exact'', ''perceptual'', ''exact+perceptual''] \<and>
   create_duplicate_groups album fuzzy_engine album_files =
     (Inr [], fuzzy_engine\<lparr>duplicate_groups := []\<rparr>) \<and>
   get_unique_files (after_run album fuzzy_engine album_files) album_files = album_files"
proof -
  have h: "mode fuzzy_engine \<notin> set [''exact'', ''perceptual'', ''exact+perceptual'']"
    by (simp add: fuzzy_engine_def new_Deduplicator_def)
  from unknown_mode_no_groups [OF h, of album album_files] h show ?thesis
    by blast
qed

lemma get_sha256_consistent:
  "cache_consistent w hc \<Longrightarrow> get_sha256 w hc p u = (r, hc') \<Longrightarrow> cache_consistent w hc'"
  by (auto simp: get_sha256_def cache_consistent_def split: option.splits if_splits)

lemma get_phash_consistent:
  "cache_consistent w hc \<Longrightarrow> get_phash w hc p u = (r, hc') \<Longrightarrow> cache_consistent w hc'"
  by (auto simp: get_phash_def cache_consistent_def split: option.splits if_splits)

lemma hash_files_consistent:
  "cache_consistent w hc \<Longrightarrow> hash_files w files tbl hc = (tbl', hc') \<Longrightarrow>
     cache_consistent w hc'"
proof (induction files arbitrary: tbl hc)
  case Nil
  then show ?case by simp
next
  case (Cons p ps)
  obtain r hc1 where g: "get_sha256 w hc p True = (r, hc1)"
    by (cases "get_sha256 w hc p True")
  from get_sha256_consistent [OF Cons.prems(1) g] have c1: "cache_consistent w hc1" .
  from Cons.prems(2) g Cons.IH [OF c1] show ?case
    by (cases r) auto
qed

lemma phash_files_consistent:
  "cache_consistent w hc \<Longrightarrow> phash_files w files items hc = (items', hc') \<Longrightarrow>
     cache_consistent w hc'"
proof (induction files arbitrary: items hc)
  case Nil
  then show ?case by simp
next
  case (Cons p ps)
  obtain r hc1 where g: "get_phash w hc p True = (r, hc1)"
    by (cases "get_phash w hc p True")
  from get_phash_consistent [OF Cons.prems(1) g] have c1: "cache_consistent w hc1" .
  from Cons.prems(2) g Cons.IH [OF c1] show ?case
    by (cases r) (auto split: if_splits)
qed

lemma find_exact_duplicates_consistent:
  "cache_consistent w hc \<Longrightarrow> find_exact_duplicates w hc files = (gs, hc') \<Longrightarrow>
     cache_consistent w hc'"
  by (auto simp: find_exact_duplicates_def Let_def split: prod.splits
      dest: hash_files_consistent)

lemma find_perceptual_duplicates_consistent:
  "cache_consistent w hc \<Longrightarrow> find_perceptual_duplicates w thr hc files = (gs, hc') \<Longrightarrow>
     cache_consistent w hc'"
  by (auto simp: find_perceptual_duplicates_def Let_def split: prod.splits
      dest: phash_files_consistent)

lemma get_file_metadata_consistent:
  "cache_consistent w hc \<Longrightarrow> get_file_metadata w hc p = (r, hc') \<Longrightarrow> cache_consistent w hc'"
  by (auto simp: get_file_metadata_def Let_def split: prod.splits sum.splits
      dest: get_sha256_consistent)

lemma get_file_metadata_list_consistent:
  "cache_consistent w hc \<Longrightarrow> get_file_metadata_list w hc ps = (r, hc') \<Longrightarrow>
     cache_consistent w hc'"
proof (induction ps arbitrary: hc r hc')
  case Nil
  then show ?case by simp
next
  case (Cons p ps)
  obtain r1 hc1 where g: "get_file_metadata w hc p = (r1, hc1)"
    by (cases "get_file_metadata w hc p")
  from get_file_metadata_consistent [OF Cons.prems(1) g] have c1: "cache_consistent w hc1" .
  show ?case
  proof (cases r1)
    case (Inl e)
    with Cons.prems(2) g c1 show ?thesis by simp
  next
    case (Inr m)
    obtain r2 hc2 where g2: "get_file_metadata_list w hc1 ps = (r2, hc2)"
      by (cases "get_file_metadata_list w hc1 ps")
    from Cons.IH [OF c1 g2] have "cache_consistent w hc2" .
    with Cons.prems(2) g g2 Inr show ?thesis
      by (auto split: sum.splits)
  qed
qed

lemma build_groups_consistent:
  "cache_consistent w (hash_calc d) \<Longrightarrow> build_groups w dtype plan gid d = (r, d') \<Longrightarrow>
     cache_consistent w (hash_calc d')"
proof (induction plan arbitrary: gid d r d')
  case Nil
  then show ?case by simp
next
  case (Cons entry rest)
  obtain fs dist where entry: "entry = (fs, dist)"
    by (cases entry)
  show ?case
  proof (cases "select_winner w fs")
    case (Inl e)
    with Cons.prems entry show ?thesis by simp
  next
    case (Inr ww)
    obtain win why where ww: "ww = (win, why)"
      by (cases ww)
    let ?dups = "filter (\<lambda>f. f \<noteq> win) fs"
    obtain r1 hc1 where g1: "get_file_metadata w (hash_calc d) win = (r1, hc1)"
      by (cases "get_file_metadata w (hash_calc d) win")
    from get_file_metadata_consistent [OF Cons.prems(1) g1] have c1: "cache_consistent w hc1" .
    show ?thesis
    proof (cases r1)
      case (Inl e)
      with Cons.prems(2) entry Inr ww g1 c1 show ?thesis by auto
    next
      case wm: (Inr wmeta)
      obtain r2 hc2 where g2: "get_file_metadata_list w hc1 ?dups = (r2, hc2)"
        by (cases "get_file_metadata_list w hc1 ?dups")
      from get_file_metadata_list_consistent [OF c1 g2] have c2: "cache_consistent w hc2" .
      show ?thesis
      proof (cases r2)
        case (Inl e)
        with Cons.prems(2) entry Inr ww g1 wm g2 c2 show ?thesis by auto
      next
        case dm: (Inr dmeta)
        let ?g = "\<lparr>group_id = gid, detection_type = dtype, winner = win,
                   duplicates = ?dups, winner_metadata = wmeta,
                   duplicate_metadata = dmeta, reason = why, phash_distance = dist\<rparr>"
        let ?d2 = "d\<lparr>hash_calc := hc2, duplicate_groups := duplicate_groups d @ [?g]\<rparr>"
        from Cons.prems(2) entry Inr ww g1 wm g2 dm
        have rec: "build_groups w dtype rest (gid + 1) ?d2 = (r, d')"
          by (simp add: Let_def)
        from c2 have "cache_consistent w (hash_calc ?d2)" by simp
        from Cons.IH [OF this rec] show ?thesis .
      qed
    qed
  qed
qed

lemma exact_pass_consistent:
  assumes "cache_consistent w (hash_calc d)" and "exact_pass w d files = (r, d')"
  shows "cache_consistent w (hash_calc d')"
proof (cases "mode d \<in> set [''exact'', ''exact+perceptual'']")
  case False
  with assms show ?thesis by (auto simp: exact_pass_def)
next
  case True
  obtain eg hc where fe: "find_exact_duplicates w (hash_calc d) files = (eg, hc)"
    by (cases "find_exact_duplicates w (hash_calc d) files")
  from find_exact_duplicates_consistent [OF assms(1) fe]
  have c: "cache_consistent w (hash_calc (d\<lparr>hash_calc := hc\<rparr>))" by simp
  from True assms(2) fe
  have "build_groups w ''exact'' (map (\<lambda>g. (g, None)) eg) 0 (d\<lparr>hash_calc := hc\<rparr>) = (r, d')"
    by (simp add: exact_pass_def)
  from build_groups_consistent [OF c this] show ?thesis .
qed

lemma perceptual_pass_consistent:
  assumes "cache_consistent w (hash_calc d)" and "perceptual_pass w gid d files = (r, d')"
  shows "cache_consistent w (hash_calc d')"
proof (cases "mode d \<in> set [''perceptual'', ''exact+perceptual'']")
  case False
  with assms show ?thesis by (auto simp: perceptual_pass_def)
next
  case True
  let ?rem = "filter (\<lambda>f. f \<notin> processed_files_of (duplicate_groups d)) files"
  obtain pg hc where fp:
    "find_perceptual_duplicates w (phash_threshold d) (hash_calc d) ?rem = (pg, hc)"
    by (cases "find_perceptual_duplicates w (phash_threshold d) (hash_calc d) ?rem")
  from find_perceptual_duplicates_consistent [OF assms(1) fp]
  have c: "cache_consistent w (hash_calc (d\<lparr>hash_calc := hc\<rparr>))" by simp
  from True assms(2) fp
  have "build_groups w ''perceptual'' (map (\<lambda>(g, dist). (g, Some dist)) pg) gid
          (d\<lparr>hash_calc := hc\<rparr>) = (r, d')"
    by (simp add: perceptual_pass_def Let_def)
  from build_groups_consistent [OF c this] show ?thesis .
qed

lemma run_keeps_cache_consistent:
  assumes "cache_consistent w (hash_calc d)"
  shows "cache_consistent w (hash_calc (after_run w d files))"
proof -
  obtain r1 d1 where e: "exact_pass w (d\<lparr>duplicate_groups := []\<rparr>) files = (r1, d1)"
    by (cases "exact_pass w (d\<lparr>duplicate_groups := []\<rparr>) files")
  from assms have "cache_consistent w (hash_calc (d\<lparr>duplicate_groups := []\<rparr>))" by simp
  from exact_pass_consistent [OF this e] have c1: "cache_consistent w (hash_calc d1)" .
  show ?thesis
  proof (cases r1)
    case (Inl err)
    with e c1 show ?thesis by (simp add: create_duplicate_groups_def)
  next
    case (Inr gid)
    obtain r2 d2 where p: "perceptual_pass w gid d1 files = (r2, d2)"
      by (cases "perceptual_pass w gid d1 files")
    from perceptual_pass_consistent [OF c1 p] have "cache_consistent w (hash_calc d2)" .
    with e Inr p show ?thesis
      by (cases r2) (simp_all add: create_duplicate_groups_def)
  qed
qed

lemma consistent_views:
  assumes "cache_consistent w hc"
  shows "same_views w new_HashCalculator hc"
proof -
  have "sha_view w hc p = sha_view w new_HashCalculator p" for p
    using assms
    by (cases "sha256_cache hc p")
       (auto simp: sha_view_def new_HashCalculator_def cache_consistent_def)
  moreover have "phash_view w hc p = phash_view w new_HashCalculator p" for p
    using assms
    by (cases "phash_cache hc p")
       (auto simp: phash_view_def new_HashCalculator_def cache_consistent_def)
  ultimately show ?thesis
    by (auto simp: same_views_def)
qed

lemma same_inputs_same_run:
  assumes "mode d1 = mode d2" and "phash_threshold d1 = phash_threshold d2"
    and "same_views w (hash_calc d1) (hash_calc d2)"
  shows "fst (create_duplicate_groups w d1 files) = fst (create_duplicate_groups w d2 files)"
    and "duplicate_groups (after_run w d1 files) = duplicate_groups (after_run w d2 files)"
proof -
  from assms(3) have "sha_view w (hash_calc d2) = sha_view w (hash_calc d1)"
    and "phash_view w (hash_calc d2) = phash_view w (hash_calc d1)"
    by (simp_all add: same_views_def)
  with assms(1,2) engine_run_groups [of w d1 files] engine_run_groups [of w d2 files]
  show "fst (create_duplicate_groups w d1 files) = fst (create_duplicate_groups w d2 files)"
    and "duplicate_groups (after_run w d1 files) = duplicate_groups (after_run w d2 files)"
    by simp_all
qed

text \<open>
  C9. Two runs over the same files in the same order, with the same mode and threshold and
  in the same world, give the same outcome and the same list of groups (ids, winners and
  reasons among the rest): for a second run of the engine that the first run left behind,
  and for two engines whose caches hold only what the world's files hash to. The cache of a
  new engine is such a cache, and a run keeps it one (\<open>run_keeps_cache_consistent\<close>); a
  cache that disagrees with the world holds the hash of a file that has changed since.
\<close>

theorem runs_deterministic:
  "(mode d1 = mode d2 \<and> phash_threshold d1 = phash_threshold d2 \<and>
    cache_consistent w (hash_calc d1) \<and> cache_consistent w (hash_calc d2) \<longrightarrow>
      fst (create_duplicate_groups w d1 files) = fst (create_duplicate_groups w d2 files) \<and>
      map (\<lambda>g. (group_id g, winner g, reason g)) (duplicate_groups (after_run w d1 files)) =
      map (\<lambda>g. (group_id g, winner g, reason g)) (duplicate_groups (after_run w d2 files))) \<and>
   fst (create_duplicate_groups w (after_run w d files) files) =
     fst (create_duplicate_groups w d files) \<and>
   map (\<lambda>g. (group_id g, winner g, reason g))
     (duplicate_groups (after_run w (after_run w d files) files)) =
   map (\<lambda>g. (group_id g, winner g, reason g)) (duplicate_groups (after_run w d files))"
proof (intro conjI impI)
  assume h: "mode d1 = mode d2 \<and> phash_threshold d1 = phash_threshold d2 \<and>
    cache_consistent w (hash_calc d1) \<and> cache_consistent w (hash_calc d2)"
  then have "same_views w new_HashCalculator (hash_calc d1)"
    and "same_views w new_HashCalculator (hash_calc d2)"
    by (simp_all add: consistent_views)
  then have v: "same_views w (hash_calc d1) (hash_calc d2)"
    by (simp add: same_views_def)
  from h same_inputs_same_run [OF _ _ v, of files]
  show "fst (create_duplicate_groups w d1 files) = fst (create_duplicate_groups w d2 files)"
    and "map (\<lambda>g. (group_id g, winner g, reason g)) (duplicate_groups (after_run w d1 files)) =
      map (\<lambda>g. (group_id g, winner g, reason g)) (duplicate_groups (after_run w d2 files))"
    by simp_all
next
  obtain r d' where c: "create_duplicate_groups w d files = (r, d')"
    by (cases "create_duplicate_groups w d files")
  note p = create_duplicate_groups_pure [OF c]
  from same_inputs_same_run [of d' d w files] p(2,3,4) c
  show "fst (create_duplicate_groups w (after_run w d files) files) =
     fst (create_duplicate_groups w d files)"
    and "map (\<lambda>g. (group_id g, winner g, reason g))
     (duplicate_groups (after_run w (after_run w d files) files)) =
   map (\<lambda>g. (group_id g, winner g, reason g)) (duplicate_groups (after_run w d files))"
    by (simp_all add: same_views_def)
qed

lemma warm_engine_consistent: "cache_consistent album (hash_calc warm_engine)"
  by (auto simp: cache_consistent_def warm_engine_def album_def table_eval split: if_splits)

lemma album_engine_consistent: "cache_consistent album (hash_calc album_engine)"
  by (simp add: cache_consistent_def album_engine_def new_Deduplicator_def new_HashCalculator_def)

theorem runs_deterministic_witness:
  "mode album_engine = mode warm_engine \<and>
   phash_threshold album_engine = phash_threshold warm_engine \<and>
   cache_consistent album (hash_calc album_engine) \<and>
   cache_consistent album (hash_calc warm_engine) \<and>
   fst (create_duplicate_groups album album_engine album_files) =
     fst (create_duplicate_groups album warm_engine album_files) \<and>
   map (\<lambda>g. (group_id g, winner g, reason g))
     (duplicate_groups (after_run album warm_engine album_files)) =
   [(0, ''b.jpg'', ''highest resolution (200x200)''),
    (1, ''d.png'', ''largest file size (900 bytes)'')]"
proof -
  have h: "mode album_engine = mode warm_engine \<and>
      phash_threshold album_engine = phash_threshold warm_engine \<and>
      cache_consistent album (hash_calc album_engine) \<and>
      cache_consistent album (hash_calc warm_engine)"
    using warm_engine_consistent album_engine_consistent
    by (simp add: album_engine_def warm_engine_def new_Deduplicator_def)
  have "map (\<lambda>g. (group_id g, winner g, reason g))
      (duplicate_groups (after_run album album_engine album_files)) =
    [(0, ''b.jpg'', ''highest resolution (200x200)''),
     (1, ''d.png'', ''largest file size (900 bytes)'')]"
    using arg_cong [OF album_groups, of "map (\<lambda>t. (fst t, fst (snd (snd t)), fst (snd (snd (snd (snd t))))))"]
    by (simp add: comp_def)
  with runs_deterministic [of album_engine warm_engine album album_files] h
  show ?thesis
    by simp
qed

section \<open>Facts about the perceptual clustering\<close>

lemma differing_bits_triangle:
  "length a = length b \<Longrightarrow> length b = length c \<Longrightarrow>
     differing_bits b c \<le> differing_bits a b + differing_bits a c"
  by (induction a b c rule: list_induct3) (auto simp: differing_bits_def)

lemma hamming_distance_triangle:
  "hamming_distance w a b < 999 \<Longrightarrow> hamming_distance w a c < 999 \<Longrightarrow>
     hamming_distance w b c \<le> hamming_distance w a b + hamming_distance w a c"
  using differing_bits_triangle
  by (auto simp: hamming_distance_def hash_sub_def split: option.splits if_splits)

lemma no_distances_3_4_9:
  "\<not> (hamming_distance w a b = 3 \<and> hamming_distance w a c = 4 \<and> hamming_distance w b c = 9)"
  using hamming_distance_triangle [of w a b c] by auto

lemma greedy_clusters_insert:
  "s \<notin> set later \<Longrightarrow>
     greedy_clusters dist thr later (insert s assigned) = greedy_clusters dist thr later assigned"
proof (induction later arbitrary: assigned)
  case Nil
  then show ?case by simp
next
  case (Cons x xs)
  then have xs: "x \<noteq> s" "s \<notin> set xs" by auto
  have f: "filter (\<lambda>f. f \<notin> insert s assigned \<and> int (dist x f) \<le> thr) xs =
      filter (\<lambda>f. f \<notin> assigned \<and> int (dist x f) \<le> thr) xs"
    using xs(2) by (intro filter_cong) auto
  have u: "insert s assigned \<union> A = insert s (assigned \<union> A)" for A
    by auto
  have m: "x \<in> insert s assigned \<longleftrightarrow> x \<in> assigned"
    using xs(1) by simp
  show ?case
    by (simp only: greedy_clusters.simps m f u Let_def Cons.IH [OF xs(2)])
qed

lemma map_fst_near:
  assumes "pv f1 = Some h1" and "\<forall>(p, h) \<in> set rest. pv p = Some h"
  shows "map fst (near w thr h1 P rest) =
           filter (\<lambda>f. f \<notin> P \<and> int (fingerprint_distance w pv f1 f) \<le> thr) (map fst rest)"
  using assms(2)
proof (induction rest)
  case Nil
  then show ?case by (simp add: near_Nil)
next
  case (Cons x xs)
  obtain p h where x: "x = (p, h)" by (cases x)
  with Cons.prems have "pv p = Some h" by simp
  with assms(1) have "fingerprint_distance w pv f1 p = hamming_distance w h1 h"
    by (simp add: fingerprint_distance_def)
  with Cons x show ?case
    by (simp add: near_Cons)
qed

lemma cluster_greedy:
  assumes "items_ok pv items"
  shows "map fst (cluster w thr items P) =
           greedy_clusters (fingerprint_distance w pv) thr (map fst items) P"
  using assms
proof (induction items arbitrary: P)
  case Nil
  then show ?case by simp
next
  case (Cons x rest)
  obtain f1 h1 where x: "x = (f1, h1)" by (cases x)
  from Cons.prems x have ok: "items_ok pv rest" and pv1: "pv f1 = Some h1"
    and new: "f1 \<notin> set (map fst rest)" and all: "\<forall>(p, h) \<in> set rest. pv p = Some h"
    by (auto simp: items_ok_def)
  note IH = Cons.IH [OF ok]
  define added where
    "added = filter (\<lambda>f. f \<notin> P \<and> int (fingerprint_distance w pv f1 f) \<le> thr) (map fst rest)"
  have near: "map fst (near w thr h1 P rest) = added"
    unfolding added_def by (rule map_fst_near [OF pv1 all])
  have scan: "fst (scan_rest w thr h1 P rest ([f1], None)) = f1 # added"
    by (simp add: scan_rest_eq near)
  have greedy: "greedy_clusters (fingerprint_distance w pv) thr (f1 # map fst rest) P =
      (if f1 \<in> P then greedy_clusters (fingerprint_distance w pv) thr (map fst rest) P
       else if 2 \<le> length (f1 # added)
         then (f1 # added) #
           greedy_clusters (fingerprint_distance w pv) thr (map fst rest) (P \<union> set (f1 # added))
         else greedy_clusters (fingerprint_distance w pv) thr (map fst rest) (P \<union> set (f1 # added)))"
    by (simp only: greedy_clusters.simps Let_def added_def)
  have code: "map fst (cluster w thr ((f1, h1) # rest) P) =
      (if f1 \<in> P then map fst (cluster w thr rest P)
       else if 1 < length (f1 # added)
         then (f1 # added) # map fst (cluster w thr rest (P \<union> set (f1 # added)))
         else map fst (cluster w thr rest P))"
    using scan by (simp add: case_prod_unfold Let_def)
  have goal: "?case \<longleftrightarrow>
      map fst (cluster w thr ((f1, h1) # rest) P) =
        greedy_clusters (fingerprint_distance w pv) thr (f1 # map fst rest) P"
    by (simp only: x list.map fst_conv)
  show ?case
  proof (cases "f1 \<in> P")
    case True
    with IH [of P] show ?thesis
      by (simp only: goal greedy code if_True)
  next
    case False
    show ?thesis
    proof (cases "added = []")
      case True
      have ins: "greedy_clusters (fingerprint_distance w pv) thr (map fst rest) (insert f1 P) =
          greedy_clusters (fingerprint_distance w pv) thr (map fst rest) P"
        by (rule greedy_clusters_insert [OF new])
      from True have n: "\<not> 2 \<le> length (f1 # added)" "\<not> 1 < length (f1 # added)"
        "P \<union> set (f1 # added) = insert f1 P"
        by simp_all
      from False IH [of P] show ?thesis
        by (simp only: goal greedy code n ins if_False)
    next
      case nonempty: False
      then have n: "2 \<le> length (f1 # added)" "1 < length (f1 # added)"
        by (cases added; simp)+
      from False IH [of "P \<union> set (f1 # added)"] show ?thesis
        by (simp only: goal greedy code n if_True if_False)
    qed
  qed
qed

lemma fingerprint_files_order:
  "map fst (fingerprint_files pv files items) =
     fold (\<lambda>p seen. if p \<in> set seen then seen else seen @ [p])
       (filter (has_fingerprint pv) files) (map fst items)"
proof (induction files arbitrary: items)
  case Nil
  then show ?case by simp
next
  case (Cons p ps)
  show ?case
  proof (cases "pv p")
    case None
    with Cons show ?thesis by (simp add: has_fingerprint_def)
  next
    case (Some h)
    show ?thesis
    proof (cases "h = []")
      case True
      with Some Cons show ?thesis by (simp add: has_fingerprint_def)
    next
      case False
      have "set (map fst items) = fst ` set items" by simp
      with False Some Cons.IH [of "dict_set p h items"] show ?thesis
        by (simp add: has_fingerprint_def keys_dict_set del: set_map)
    qed
  qed
qed

lemma perceptual_groups_greedy:
  "map fst (perceptual_groups w (phash_view w hc) thr files) =
     greedy_clusters (fingerprint_distance w (phash_view w hc)) thr
       (first_occurrences (filter (has_fingerprint (phash_view w hc)) files)) {}"
proof -
  let ?pv = "phash_view w hc"
  have "items_ok ?pv []" by (simp add: items_ok_def)
  then have ok: "items_ok ?pv (fingerprint_files ?pv (filter (is_supported_image w) files) [])"
    by (rule fingerprint_files_ok)
  have "has_fingerprint ?pv p \<longrightarrow> is_supported_image w p" for p
    by (simp add: has_fingerprint_def phash_view_def)
  then have "filter (has_fingerprint ?pv) (filter (is_supported_image w) files) =
      filter (has_fingerprint ?pv) files"
    by (induction files) auto
  then have "map fst (fingerprint_files ?pv (filter (is_supported_image w) files) []) =
      first_occurrences (filter (has_fingerprint ?pv) files)"
    by (simp add: fingerprint_files_order first_occurrences_def)
  with cluster_greedy [OF ok, of w thr "{}"] show ?thesis
    by (simp add: perceptual_groups_def)
qed

lemma find_perceptual_duplicates_greedy:
  "map fst (fst (find_perceptual_duplicates w thr hc files)) =
     greedy_clusters (fingerprint_distance w (phash_view w hc)) thr
       (first_occurrences (filter (has_fingerprint (phash_view w hc)) files)) {}"
proof -
  obtain gs hc' where f: "find_perceptual_duplicates w thr hc files = (gs, hc')"
    by (cases "find_perceptual_duplicates w thr hc files")
  from find_perceptual_duplicates_pure [OF f] f perceptual_groups_greedy [of w hc thr files]
  show ?thesis
    by simp
qed

text \<open>
  C3. The perceptual groups are those of the specification's greedy chaining, run over the
  files that have a fingerprint, in the order of the input. In particular three files whose
  second and third are within the threshold of the first form one group of three, however
  far the second is from the third. That covers the specification's example, where the
  distances are 3 and 4 and the threshold is 6; the 9 between the second and the third is
  more than three fingerprints allow (\<open>hamming_distance_triangle\<close>), so the worked example
  below has 3, 4 and 7.
\<close>

theorem perceptual_clustering_is_greedy:
  "map fst (fst (find_perceptual_duplicates w thr hc files)) =
     greedy_clusters (fingerprint_distance w (phash_view w hc)) thr
       (first_occurrences (filter (has_fingerprint (phash_view w hc)) files)) {} \<and>
   (distinct [a, b, c] \<and>
    phash_view w hc a = Some ha \<and> phash_view w hc b = Some hb \<and> phash_view w hc c = Some hc' \<and>
    ha \<noteq> [] \<and> hb \<noteq> [] \<and> hc' \<noteq> [] \<and>
    int (hamming_distance w ha hb) \<le> thr \<and> int (hamming_distance w ha hc') \<le> thr \<longrightarrow>
      map fst (fst (find_perceptual_duplicates w thr hc [a, b, c])) = [[a, b, c]])"
proof (intro conjI impI)
  show "map fst (fst (find_perceptual_duplicates w thr hc files)) =
     greedy_clusters (fingerprint_distance w (phash_view w hc)) thr
       (first_occurrences (filter (has_fingerprint (phash_view w hc)) files)) {}"
    by (rule find_perceptual_duplicates_greedy)
next
  assume h: "distinct [a, b, c] \<and>
    phash_view w hc a = Some ha \<and> phash_view w hc b = Some hb \<and> phash_view w hc c = Some hc' \<and>
    ha \<noteq> [] \<and> hb \<noteq> [] \<and> hc' \<noteq> [] \<and>
    int (hamming_distance w ha hb) \<le> thr \<and> int (hamming_distance w ha hc') \<le> thr"
  then have "first_occurrences (filter (has_fingerprint (phash_view w hc)) [a, b, c]) = [a, b, c]"
    by (auto simp: first_occurrences_def has_fingerprint_def)
  with h find_perceptual_duplicates_greedy [of w thr hc "[a, b, c]"]
  show "map fst (fst (find_perceptual_duplicates w thr hc [a, b, c])) = [[a, b, c]]"
    by (simp add: fingerprint_distance_def Let_def)
qed

lemma trio_distances:
  "hamming_distance trio ''0000'' ''0007'' = 3"
  "hamming_distance trio ''0000'' ''00f0'' = 4"
  "hamming_distance trio ''0007'' ''00f0'' = 7"
  by (simp_all add: trio_def hamming_distance_def hash_sub_def differing_bits_def table_eval)

lemma trio_fingerprints:
  "phash_view trio new_HashCalculator ''a.jpg'' = Some ''0000''"
  "phash_view trio new_HashCalculator ''b.jpg'' = Some ''0007''"
  "phash_view trio new_HashCalculator ''c.jpg'' = Some ''00f0''"
  by (simp_all add: trio_def phash_view_def new_HashCalculator_def is_supported_image_def
      supported_extensions_def table_eval)

theorem perceptual_clustering_is_greedy_witness:
  "distinct [''a.jpg'', ''b.jpg'', ''c.jpg''] \<and>
   phash_view trio new_HashCalculator ''a.jpg'' = Some ''0000'' \<and>
   phash_view trio new_HashCalculator ''b.jpg'' = Some ''0007'' \<and>
   phash_view trio new_HashCalculator ''c.jpg'' = Some ''00f0'' \<and>
   hamming_distance trio ''0000'' ''0007'' = 3 \<and>
   hamming_distance trio ''0000'' ''00f0'' = 4 \<and>
   hamming_distance trio ''0007'' ''00f0'' = 7 \<and>
   map fst (fst (find_perceptual_duplicates trio 6 new_HashCalculator
     [''a.jpg'', ''b.jpg'', ''c.jpg''])) = [[''a.jpg'', ''b.jpg'', ''c.jpg'']]"
proof -
  have d: "distinct [''a.jpg'', ''b.jpg'', ''c.jpg'']" by simp
  from perceptual_clustering_is_greedy
    [of trio 6 new_HashCalculator "[]" "''a.jpg''" "''b.jpg''" "''c.jpg''"
        "''0000''" "''0007''" "''00f0''"]
    d trio_fingerprints trio_distances
  show ?thesis
    by simp
qed

lemma trio_run:
  "fst (find_perceptual_duplicates trio 6 new_HashCalculator [''a.jpg'', ''b.jpg'', ''c.jpg'']) =
     [([''a.jpg'', ''b.jpg'', ''c.jpg''], 3)]"
  by (simp add: trio_def engine_eval)

section \<open>Facts about files that cannot be hashed\<close>

lemma bucket_files_skip:
  "bucket_files sv (filter (\<lambda>p. sv p \<noteq> None) files) tbl = bucket_files sv files tbl"
  by (induction files arbitrary: tbl) (auto split: option.splits)

lemma find_exact_duplicates_skips:
  "fst (find_exact_duplicates w hc files) =
     fst (find_exact_duplicates w hc (filter (\<lambda>p. sha_view w hc p \<noteq> None) files))"
  and "grp \<in> set (fst (find_exact_duplicates w hc files)) \<Longrightarrow> p \<in> set grp \<Longrightarrow>
     sha_view w hc p \<noteq> None"
proof -
  let ?ok = "filter (\<lambda>p. sha_view w hc p \<noteq> None) files"
  obtain gs hc' where f: "find_exact_duplicates w hc files = (gs, hc')"
    by (cases "find_exact_duplicates w hc files")
  obtain gs2 hc2 where f2: "find_exact_duplicates w hc ?ok = (gs2, hc2)"
    by (cases "find_exact_duplicates w hc ?ok")
  have "exact_groups (sha_view w hc) ?ok = exact_groups (sha_view w hc) files"
    by (simp only: exact_groups_def bucket_files_skip)
  moreover from find_exact_duplicates_pure [OF f] f
  have "fst (find_exact_duplicates w hc files) = exact_groups (sha_view w hc) files"
    by simp
  moreover from find_exact_duplicates_pure [OF f2] f2
  have "fst (find_exact_duplicates w hc ?ok) = exact_groups (sha_view w hc) ?ok"
    by (simp only: fst_conv)
  ultimately show "fst (find_exact_duplicates w hc files) = fst (find_exact_duplicates w hc ?ok)"
    by (simp only:)
  assume "grp \<in> set (fst (find_exact_duplicates w hc files))" and p: "p \<in> set grp"
  with find_exact_duplicates_pure [OF f] f
  have "grp \<in> set (exact_groups (sha_view w hc) files)" by simp
  from exact_groups_members(1) [OF this] p show "sha_view w hc p \<noteq> None"
    by auto
qed

lemma get_phash_absent:
  "\<not> IMAGEHASH_AVAILABLE w \<Longrightarrow> fst (get_phash w hc p use_cache) = None"
  "phash_cache hc p = None \<Longrightarrow> compute_phash w p = None \<Longrightarrow>
     fst (get_phash w hc p use_cache) = None"
  by (simp_all add: get_phash_def)

lemma find_perceptual_duplicates_skips:
  assumes "(grp, dist) \<in> set (fst (find_perceptual_duplicates w thr hc files))" and "p \<in> set grp"
  shows "fst (get_phash w hc p True) \<noteq> None"
proof -
  obtain gs hc' where f: "find_perceptual_duplicates w thr hc files = (gs, hc')"
    by (cases "find_perceptual_duplicates w thr hc files")
  obtain r hc2 where g: "get_phash w hc p True = (r, hc2)"
    by (cases "get_phash w hc p True")
  from find_perceptual_duplicates_pure [OF f] f assms(1)
  have "(grp, dist) \<in> set (perceptual_groups w (phash_view w hc) thr files)" by simp
  from perceptual_groups_props(1) [OF this] assms(2) have "phash_view w hc p \<noteq> None"
    by auto
  with get_phash_view(1) [OF g] g show ?thesis
    by simp
qed

text \<open>
  C7. The exact pass and the fingerprinting skip a file that cannot be hashed
  (\<open>find_exact_duplicates_skips\<close>, \<open>get_phash_absent\<close>, \<open>find_perceptual_duplicates_skips\<close>),
  but the run is not safe from it: \<^verbatim>\<open>_get_file_metadata\<close> asks for the digest of every file
  of a group without a handler. When reading \<^verbatim>\<open>d.png\<close> raises and its image still decodes,
  the exact pass skips the file, the perceptual pass groups it with \<^verbatim>\<open>c.jpg\<close>, and the
  digest's exception leaves \<^verbatim>\<open>create_duplicate_groups\<close> with the exact group alone. With the
  digest in place the same run returns both groups.
\<close>

theorem digest_failure_aborts_run:
  "fst (get_sha256 torn_album new_HashCalculator ''d.png'' True) = Inl IOError \<and>
   fst (get_phash torn_album new_HashCalculator ''d.png'' True) = Some ''0007'' \<and>
   fst (find_exact_duplicates torn_album new_HashCalculator album_files) =
     [[''a.jpg'', ''b.jpg'']] \<and>
   fst (create_duplicate_groups torn_album album_engine album_files) = Inl IOError \<and>
   map (\<lambda>g. (group_id g, detection_type g, winner g, duplicates g))
     (duplicate_groups (after_run torn_album album_engine album_files)) =
     [(0, ''exact'', ''b.jpg'', [''a.jpg''])] \<and>
   map (\<lambda>g. (group_id g, detection_type g, winner g, duplicates g))
     (case fst (create_duplicate_groups album album_engine album_files) of
        Inl e \<Rightarrow> [] | Inr gs \<Rightarrow> gs) =
     [(0, ''exact'', ''b.jpg'', [''a.jpg'']), (1, ''perceptual'', ''d.png'', [''c.jpg''])]"
  by (simp add: torn_album_def album_def album_files_def album_engine_def engine_eval)

end
